theory Spec2Isabelle
  imports Main
begin

section \<open>Client windows: data model\<close>

text \<open>
  The client request windows of the replica (package mirbft, the file that declares
  \<open>clientWindows\<close>, \<open>clientWindow\<close>, \<open>clientReqNo\<close> and \<open>clientRequest\<close>).

  Conventions of the embedding.
  \<^item> Go's \<open>uint64\<close> values (request numbers, watermarks, sequence numbers, client
    and node ids) are \<open>nat\<close>s; a \<open>uint64\<close> is a \<open>nat\<close> below \<open>2^64\<close>. Every addition
    of the source on a request number or a watermark is a \<open>uint64\<close> addition, which
    keeps the low 64 bits of the sum: it is written \<open>wrap64 (a + b)\<close>. A loop of the
    source that steps a \<open>uint64\<close> up to a bound that may be \<open>2^64 - 1\<close> need not end; it
    returns an \<open>option\<close>, and \<open>None\<close> stands for a call that does not return. The count
    of the entries removed from a list is at most the length of that list, which is in
    memory; it is not reduced.
  \<^item> A \<open>[]byte\<close> digest and its \<open>string(digest)\<close> map key are the same \<open>string\<close>.
  \<^item> A \<open>panic\<close> of the source is the \<open>Inl\<close> branch of a sum; a call that returns
    normally is \<open>Inr\<close>.
  \<^item> \<open>*clientReqNo\<close> objects are shared between a window (its \<open>reqNoList\<close> and
    \<open>reqNoMap\<close>) and the entries of the ready list, and they are mutated through
    both. They live in an explicit store, \<open>crnStore\<close>, and the structures hold
    addresses. An address that was handed out is never reused.
  \<^item> The \<open>*clientRequest\<close> that \<open>strongRequest\<close> points to is, at every assignment
    in the source, the value of the same object's \<open>digests\<close> map at the digest in
    hand, and \<open>digests\<close> entries are never removed or replaced by another object. The
    pointer is therefore modelled by that digest: \<open>strongRequest = Some d\<close> stands for
    the pointer to \<open>digests[d]\<close>, \<open>None\<close> for \<open>nil\<close>.
  \<^item> The logger and the \<open>clientWaiter\<close> channel (a notifier for blocked clients) carry
    no state that the functions below read, and are left out.
\<close>

type_synonym NodeID = nat
type_synonym digest = string

datatype Request = Request (req_ClientId: nat) (req_ReqNo: nat) (req_Data: string)

datatype RequestAck = RequestAck (ack_ClientId: nat) (ack_ReqNo: nat) (ack_Digest: digest)

datatype FetchRequest = FetchRequest (fetch_ClientId: nat) (fetch_ReqNo: nat) (fetch_Digest: digest)

datatype ForwardRequest = ForwardRequest (fwd_Request: Request) (fwd_Digest: digest)

text \<open>The message kinds the client windows handle; \<open>Msg_Other\<close> is any other kind.\<close>

datatype Msg =
    Msg_RequestAck RequestAck
  | Msg_FetchRequest FetchRequest
  | Msg_ForwardRequest ForwardRequest
  | Msg_Other

datatype applyable = past | current | future

datatype panic =
    Unexpected nat nat  \<comment> \<open>\<open>panic("unexpected: %d > %d")\<close> and \<open>"unexpected: %d < %d"\<close>\<close>
  | DevSanityCheck      \<comment> \<open>\<open>panic("dev sanity check")\<close>\<close>
  | DevSanityTest       \<comment> \<open>\<open>panic("dev sanity test")\<close>\<close>
  | NoMapping nat       \<comment> \<open>\<open>panic("dev sanity test: no mapping from reqNo %d")\<close>\<close>
  | NilDereference      \<comment> \<open>the runtime panic of a nil pointer dereference\<close>
  | IndexOutOfRange     \<comment> \<open>the runtime panic of an index out of range\<close>
  | BadMsgType          \<comment> \<open>\<open>panic("unexpected bad client window message type ...")\<close>\<close>

record NetworkState_Config =
  Nodes :: "nat list"

record clientRequest =
  cr_digest :: digest
  data :: "Request option"
  agreements :: "NodeID set"

record clientReqNo =
  clientID :: nat
  reqNo :: nat
  digests :: "digest \<rightharpoonup> clientRequest"
  committed :: "nat option"
  strongRequest :: "digest option"

record crnStore =
  crnAt :: "nat \<Rightarrow> clientReqNo"
  crnFresh :: nat

record clientWindow =
  cw_clientID :: nat
  nextReadyMark :: nat
  lowWatermark :: nat
  highWatermark :: nat
  reqNoList :: "nat list"
  reqNoMap :: "nat \<rightharpoonup> nat"
  networkConfig :: NetworkState_Config

section \<open>Quorums\<close>

text \<open>
  Modelled from the spec: \<open>someCorrectQuorum\<close> and \<open>intersectionQuorum\<close> are called by
  the client windows but are declared in a file that is not among the sources. The
  specification gives \<open>n = |nodes|\<close>, \<open>f = (n-1)/3\<close>, \<open>someCorrectQuorum = f+1\<close> and
  \<open>intersectionQuorum = 2f+1\<close>.
\<close>

definition faults :: "NetworkState_Config \<Rightarrow> nat" where
  "faults cfg = (length (Nodes cfg) - 1) div 3"

definition someCorrectQuorum :: "NetworkState_Config \<Rightarrow> nat" where
  "someCorrectQuorum cfg = faults cfg + 1"

definition intersectionQuorum :: "NetworkState_Config \<Rightarrow> nat" where
  "intersectionQuorum cfg = 2 * faults cfg + 1"

section \<open>Unsigned 64-bit arithmetic\<close>

text \<open>The value of a \<open>uint64\<close> expression whose mathematical value is \<open>n\<close>.\<close>

definition wrap64 :: "nat \<Rightarrow> nat" where
  "wrap64 n = n mod 2 ^ 64"

section \<open>One client window\<close>

text \<open>
  The body shared by the loop of \<open>newClientWindow\<close> and the second loop of
  \<open>clientWindow.garbageCollect\<close>: push a fresh, empty \<open>clientReqNo\<close> for request
  number \<open>i\<close> to the back of \<open>reqNoList\<close> and record it in \<open>reqNoMap\<close>.
\<close>

definition pushBackReqNo :: "nat \<Rightarrow> crnStore \<times> clientWindow \<Rightarrow> crnStore \<times> clientWindow" where
  "pushBackReqNo i = (\<lambda>(h, cw).
     (h\<lparr>crnAt := (crnAt h)(crnFresh h :=
           \<lparr>clientID = cw_clientID cw, reqNo = i, digests = Map.empty,
            committed = None, strongRequest = None\<rparr>),
        crnFresh := Suc (crnFresh h)\<rparr>,
      cw\<lparr>reqNoList := reqNoList cw @ [crnFresh h],
         reqNoMap := (reqNoMap cw)(i \<mapsto> crnFresh h)\<rparr>))"

text \<open>
  The loop of \<open>newClientWindow\<close>, \<open>for i := lowWatermark; i <= highWatermark; i++\<close>, with
  \<open>i\<close> the request number in hand. With \<open>highWatermark = 2^64 - 1\<close> the test holds of every
  \<open>uint64\<close>, and the loop does not end.
\<close>

partial_function (option) newClientWindow_loop ::
  "nat \<Rightarrow> nat \<Rightarrow> crnStore \<times> clientWindow \<Rightarrow> (crnStore \<times> clientWindow) option" where
  "newClientWindow_loop i high s =
     (if i \<le> high then newClientWindow_loop (wrap64 (i + 1)) high (pushBackReqNo i s)
      else Some s)"

definition newClientWindow ::
  "crnStore \<Rightarrow> nat \<Rightarrow> nat \<Rightarrow> nat \<Rightarrow> NetworkState_Config \<Rightarrow> (crnStore \<times> clientWindow) option" where
  "newClientWindow h cid low high cfg =
     newClientWindow_loop low high
       (h, \<lparr>cw_clientID = cid, nextReadyMark = low, lowWatermark = low,
            highWatermark = high, reqNoList = [], reqNoMap = Map.empty,
            networkConfig = cfg\<rparr>)"

text \<open>
  The first loop of \<open>clientWindow.garbageCollect\<close>: walk \<open>reqNoList\<close> from the front while
  the entry is committed at or below \<open>maxSeqNo\<close>; remove it from the list and the map,
  count it, and move \<open>nextReadyMark\<close> to its request number when that is not below the
  mark.
\<close>

function gcFront :: "crnStore \<Rightarrow> nat \<Rightarrow> clientWindow \<Rightarrow> nat \<Rightarrow> clientWindow \<times> nat" where
  "gcFront h maxSeqNo cw removed =
     (case reqNoList cw of
        [] \<Rightarrow> (cw, removed)
      | a # rest \<Rightarrow>
          (case committed (crnAt h a) of
             None \<Rightarrow> (cw, removed)
           | Some c \<Rightarrow>
               if c > maxSeqNo then (cw, removed)
               else gcFront h maxSeqNo
                      (cw\<lparr>nextReadyMark :=
                            (if reqNo (crnAt h a) \<ge> nextReadyMark cw
                             then reqNo (crnAt h a) else nextReadyMark cw),
                          reqNoList := rest,
                          reqNoMap := (reqNoMap cw)(reqNo (crnAt h a) := None)\<rparr>)
                      (removed + 1)))"
  by pat_completeness auto
termination
  by (relation "measure (\<lambda>(h, m, cw, r). length (reqNoList cw))") auto

declare gcFront.simps [simp del]

text \<open>
  \<open>clientWindow.garbageCollect\<close>: the first loop, then one fresh entry per removed one, for
  the request numbers \<open>i + highWatermark\<close> with \<open>i\<close> from 1 to \<open>removed\<close>, then both
  watermarks are moved up by \<open>removed\<close>. The three additions are \<open>uint64\<close> additions.
\<close>

definition cw_garbageCollect :: "crnStore \<Rightarrow> clientWindow \<Rightarrow> nat \<Rightarrow> crnStore \<times> clientWindow" where
  "cw_garbageCollect h cw maxSeqNo =
     (case gcFront h maxSeqNo cw 0 of
        (cw1, removed) \<Rightarrow>
          (case fold (\<lambda>i. pushBackReqNo (wrap64 (i + highWatermark cw1))) [1..<Suc removed] (h, cw1) of
             (h2, cw2) \<Rightarrow>
               (h2, cw2\<lparr>lowWatermark := wrap64 (lowWatermark cw2 + removed),
                        highWatermark := wrap64 (highWatermark cw2 + removed)\<rparr>)))"

text \<open>
  \<open>clientWindow.ack\<close>. The source returns the \<open>clientRequest\<close>, the \<open>clientReqNo\<close> and the
  newly correct request; here the result is the updated store, the address of the
  \<open>clientReqNo\<close> and the newly correct request (the \<open>clientRequest\<close> is the entry of that
  \<open>clientReqNo\<close> at the digest). The window itself is not assigned to.
\<close>

definition cw_ack ::
  "crnStore \<Rightarrow> clientWindow \<Rightarrow> NodeID \<Rightarrow> nat \<Rightarrow> digest \<Rightarrow> panic + (crnStore \<times> nat \<times> Request option)" where
  "cw_ack h cw source rn d =
     (if rn > highWatermark cw then Inl (Unexpected rn (highWatermark cw))
      else if rn < lowWatermark cw then Inl (Unexpected rn (lowWatermark cw))
      else case reqNoMap cw rn of
        None \<Rightarrow> Inl DevSanityCheck
      | Some a \<Rightarrow>
          (let crn = crnAt h a;
               cr0 = (case digests crn d of
                        None \<Rightarrow> \<lparr>cr_digest = d, data = None, agreements = {}\<rparr>
                      | Some c \<Rightarrow> c);
               cr = cr0\<lparr>agreements := insert source (agreements cr0)\<rparr>;
               newlyCorrectReq =
                 (if card (agreements cr) = someCorrectQuorum (networkConfig cw)
                  then data cr else None);
               crn' = crn\<lparr>digests := (digests crn)(d \<mapsto> cr),
                          strongRequest :=
                            (if card (agreements cr) = intersectionQuorum (networkConfig cw)
                             then Some d else strongRequest crn)\<rparr>
           in Inr (h\<lparr>crnAt := (crnAt h)(a := crn')\<rparr>, a, newlyCorrectReq)))"

text \<open>\<open>clientWindow.allocate\<close>; the result is as for \<open>cw_ack\<close>.\<close>

definition cw_allocate ::
  "crnStore \<Rightarrow> clientWindow \<Rightarrow> Request \<Rightarrow> digest \<Rightarrow> panic + (crnStore \<times> nat \<times> Request option)" where
  "cw_allocate h cw requestData d =
     (if req_ReqNo requestData > highWatermark cw
        then Inl (Unexpected (req_ReqNo requestData) (highWatermark cw))
      else if req_ReqNo requestData < lowWatermark cw
        then Inl (Unexpected (req_ReqNo requestData) (lowWatermark cw))
      else case reqNoMap cw (req_ReqNo requestData) of
        None \<Rightarrow> Inl DevSanityCheck
      | Some a \<Rightarrow>
          (let crn = crnAt h a;
               cr0 = (case digests crn d of
                        None \<Rightarrow> \<lparr>cr_digest = d, data = None, agreements = {}\<rparr>
                      | Some c \<Rightarrow> c);
               cr = cr0\<lparr>data := Some requestData\<rparr>;
               newlyCorrectReq =
                 (if card (agreements cr) \<ge> someCorrectQuorum (networkConfig cw)
                  then Some requestData else None);
               crn' = crn\<lparr>digests := (digests crn)(d \<mapsto> cr),
                          strongRequest :=
                            (if card (agreements cr) = intersectionQuorum (networkConfig cw)
                             then Some d else strongRequest crn)\<rparr>
           in Inr (h\<lparr>crnAt := (crnAt h)(a := crn')\<rparr>, a, newlyCorrectReq)))"

definition inWatermarks :: "clientWindow \<Rightarrow> nat \<Rightarrow> bool" where
  "inWatermarks cw rn = (rn \<le> highWatermark cw \<and> rn \<ge> lowWatermark cw)"

text \<open>
  \<open>clientWindow.request\<close> returns the \<open>clientReqNo\<close> (here: its address). A request
  number that \<open>reqNoMap\<close> does not hold gives a nil list element, whose \<open>Value\<close> is read.
\<close>

definition request :: "clientWindow \<Rightarrow> nat \<Rightarrow> panic + nat" where
  "request cw rn =
     (if rn > highWatermark cw then Inl (Unexpected rn (highWatermark cw))
      else if rn < lowWatermark cw then Inl (Unexpected rn (lowWatermark cw))
      else case reqNoMap cw rn of None \<Rightarrow> Inl NilDereference | Some a \<Rightarrow> Inr a)"

section \<open>The client windows of a replica\<close>

text \<open>
  An entry of the ready list. The list is singly linked through \<open>next\<close> (here
  \<open>re_next\<close>), and the entries are reached through \<open>readyHead\<close> and \<open>readyTail\<close>, both of
  which the source assigns to separately; the entries therefore live in a store of their
  own (\<open>readyAt\<close>, with \<open>readyFresh\<close> the first address not yet handed out), and
  \<open>re_clientReqNo\<close> is the address of the \<open>clientReqNo\<close> in \<open>crns\<close>.
\<close>

record readyEntry =
  re_next :: "nat option"
  re_clientReqNo :: nat

text \<open>
  Modelled from the spec: the per-peer \<open>msgBuffer\<close> is declared in a file that is not
  among the sources. The specification has it store the messages classified \<open>future\<close>
  and re-filter them later, discarding those that have become \<open>past\<close>; a buffer is the
  list of its messages, oldest first.
\<close>

type_synonym msgBuffer = "Msg list"

record clientWindows =
  windows :: "nat \<rightharpoonup> clientWindow"
  clients :: "nat list"
  cws_networkConfig :: "NetworkState_Config option"
  msgBuffers :: "NodeID \<rightharpoonup> msgBuffer"
  readyHead :: nat
  readyTail :: nat
  readyAt :: "nat \<Rightarrow> readyEntry"
  readyFresh :: nat
  crns :: crnStore
  correctList :: "ForwardRequest list"
  myConfig_Id :: nat

text \<open>
  The \<open>Actions\<close> that the client windows return. Only the sends and the hash requests are
  ever filled in by this file. \<open>uint64ToBytes\<close> is not among the sources; the bytes of a
  number are kept as \<open>U64Bytes\<close> of the number.
\<close>

datatype hashChunk = U64Bytes nat | Bytes string

record HashRequest =
  hr_Data :: "hashChunk list"
  hr_Source :: nat
  hr_Request :: Request
  hr_ExpectedDigest :: digest

record SendAction =
  Targets :: "nat list"
  send_Msg :: Msg

record Actions =
  act_Send :: "SendAction list"
  act_Hash :: "HashRequest list"

definition emptyActions :: Actions where
  "emptyActions = \<lparr>act_Send = [], act_Hash = []\<rparr>"

text \<open>
  Modelled from the spec: the method \<open>Actions.send\<close> is not among the sources; it adds
  one send of the message to the targets.
\<close>

definition send :: "Actions \<Rightarrow> nat list \<Rightarrow> Msg \<Rightarrow> Actions" where
  "send a targets m = a\<lparr>act_Send := act_Send a @ [\<lparr>Targets = targets, send_Msg = m\<rparr>]\<rparr>"

text \<open>
  \<open>clientWindows.filter\<close>. The lookup \<open>cws.clientWindow(id)\<close> is the map \<open>windows\<close>
  itself.
\<close>

definition filter_msg :: "clientWindows \<Rightarrow> Msg \<Rightarrow> panic + applyable" where
  "filter_msg cws msg =
     (case msg of
        Msg_RequestAck ack \<Rightarrow>
          (case windows cws (ack_ClientId ack) of
             None \<Rightarrow> Inr future
           | Some cw \<Rightarrow>
               if lowWatermark cw > ack_ReqNo ack then Inr past
               else if highWatermark cw < ack_ReqNo ack then Inr future
               else Inr current)
      | Msg_FetchRequest fr \<Rightarrow> Inr current
      | Msg_ForwardRequest fwd \<Rightarrow>
          (case windows cws (req_ClientId (fwd_Request fwd)) of
             None \<Rightarrow> Inr future
           | Some cw \<Rightarrow>
               if lowWatermark cw > req_ReqNo (fwd_Request fwd) then Inr past
               else if highWatermark cw < req_ReqNo (fwd_Request fwd) then Inr future
               else Inr current)
      | Msg_Other \<Rightarrow> Inl BadMsgType)"

definition replyFetchRequest ::
  "clientWindows \<Rightarrow> NodeID \<Rightarrow> nat \<Rightarrow> nat \<Rightarrow> digest \<Rightarrow> panic + Actions" where
  "replyFetchRequest cws source cid rn d =
     (case windows cws cid of
        None \<Rightarrow> Inr emptyActions
      | Some cw \<Rightarrow>
          if \<not> inWatermarks cw rn then Inr emptyActions
          else (case request cw rn of
                  Inl p \<Rightarrow> Inl p
                | Inr a \<Rightarrow>
                    (case digests (crnAt (crns cws) a) d of
                       None \<Rightarrow> Inr emptyActions
                     | Some cr \<Rightarrow>
                         (case data cr of
                            None \<Rightarrow> Inr emptyActions
                          | Some rd \<Rightarrow>
                              Inr (send emptyActions [source]
                                     (Msg_ForwardRequest (ForwardRequest rd d)))))))"

definition applyForwardRequest ::
  "clientWindows \<Rightarrow> NodeID \<Rightarrow> ForwardRequest \<Rightarrow> panic + (clientWindows \<times> Actions)" where
  "applyForwardRequest cws source msg =
     (case windows cws (req_ClientId (fwd_Request msg)) of
        None \<Rightarrow> Inr (cws, emptyActions)
      | Some cw \<Rightarrow>
          (case request cw (req_ReqNo (fwd_Request msg)) of
             Inl p \<Rightarrow> Inl p
           | Inr a \<Rightarrow>
               (case digests (crnAt (crns cws) a) (fwd_Digest msg) of
                  None \<Rightarrow> Inr (cws, emptyActions)
                | Some req \<Rightarrow>
                    if data req \<noteq> None then Inr (cws, emptyActions)
                    else Inr
                      (cws\<lparr>crns := (crns cws)\<lparr>crnAt := (crnAt (crns cws))(a :=
                              (crnAt (crns cws) a)\<lparr>digests :=
                                 (digests (crnAt (crns cws) a))(fwd_Digest msg \<mapsto>
                                    req\<lparr>agreements := insert source (agreements req)\<rparr>)\<rparr>)\<rparr>\<rparr>,
                       \<lparr>act_Send = [],
                        act_Hash =
                          [\<lparr>hr_Data = [U64Bytes (req_ClientId (fwd_Request msg)),
                                       U64Bytes (req_ReqNo (fwd_Request msg)),
                                       Bytes (req_Data (fwd_Request msg))],
                            hr_Source = source,
                            hr_Request = fwd_Request msg,
                            hr_ExpectedDigest = fwd_Digest msg\<rparr>]\<rparr>))))"

text \<open>
  The three statements of \<open>advanceReady\<close> that append to the ready list: a new entry
  for the \<open>clientReqNo\<close> at address \<open>a\<close> is made, the entry that \<open>readyTail\<close> points to
  gets it as its \<open>next\<close>, and \<open>readyTail\<close> is moved to it.
\<close>

definition pushReady :: "clientWindows \<Rightarrow> nat \<Rightarrow> clientWindows" where
  "pushReady cws a =
     cws\<lparr>readyAt :=
           ((readyAt cws)(readyFresh cws := \<lparr>re_next = None, re_clientReqNo = a\<rparr>))
             (readyTail cws :=
                (((readyAt cws)(readyFresh cws := \<lparr>re_next = None, re_clientReqNo = a\<rparr>))
                   (readyTail cws))
                  \<lparr>re_next := Some (readyFresh cws)\<rparr>),
         readyFresh := Suc (readyFresh cws),
         readyTail := readyFresh cws\<rparr>"

text \<open>
  The loop of \<open>clientWindows.advanceReady\<close>, \<open>for i := nextReadyMark; i <= highWatermark;
  i++\<close>, from request number \<open>i\<close>. The window is the one the caller found in \<open>windows\<close>
  under \<open>cid\<close>; a missing one is the nil pointer. Both \<open>i++\<close> and \<open>nextReadyMark = i + 1\<close>
  are \<open>uint64\<close> additions, so with \<open>highWatermark = 2^64 - 1\<close> the loop goes on at request
  number 0. A \<open>strongRequest\<close> that names no recorded digest stands for a pointer to no
  object; no assignment of the source produces one.
\<close>

partial_function (option) advanceReadyFrom ::
  "clientWindows \<Rightarrow> nat \<Rightarrow> nat \<Rightarrow> (panic + clientWindows) option" where
  "advanceReadyFrom cws cid i =
     (case windows cws cid of
        None \<Rightarrow> Some (Inl NilDereference)
      | Some cw \<Rightarrow>
          if i \<le> highWatermark cw then
            (case reqNoMap cw i of
               None \<Rightarrow> Some (Inl (NoMapping i))
             | Some a \<Rightarrow>
                 (case strongRequest (crnAt (crns cws) a) of
                    None \<Rightarrow> Some (Inr cws)
                  | Some d \<Rightarrow>
                      (case digests (crnAt (crns cws) a) d of
                         None \<Rightarrow> Some (Inl NilDereference)
                       | Some cr \<Rightarrow>
                           (case data cr of
                              None \<Rightarrow> Some (Inr cws)
                            | Some rd \<Rightarrow>
                                advanceReadyFrom
                                  ((pushReady cws a)\<lparr>windows := (windows cws)(cid \<mapsto>
                                      cw\<lparr>nextReadyMark := wrap64 (i + 1)\<rparr>)\<rparr>)
                                  cid (wrap64 (i + 1))))))
          else Some (Inr cws))"

definition advanceReady :: "clientWindows \<Rightarrow> nat \<Rightarrow> (panic + clientWindows) option" where
  "advanceReady cws cid =
     (case windows cws cid of
        None \<Rightarrow> Some (Inl NilDereference)
      | Some cw \<Rightarrow> advanceReadyFrom cws cid (nextReadyMark cw))"

text \<open>\<open>clientWindows.checkReady\<close>; \<open>ocrn\<close> is the address of the \<open>clientReqNo\<close>.\<close>

definition checkReady :: "clientWindows \<Rightarrow> nat \<Rightarrow> nat \<Rightarrow> (panic + clientWindows) option" where
  "checkReady cws cid ocrn =
     (case windows cws cid of
        None \<Rightarrow> Some (Inl NilDereference)
      | Some cw \<Rightarrow>
          if reqNo (crnAt (crns cws) ocrn) \<noteq> nextReadyMark cw then Some (Inr cws)
          else (case strongRequest (crnAt (crns cws) ocrn) of
                  None \<Rightarrow> Some (Inr cws)
                | Some d \<Rightarrow>
                    (case digests (crnAt (crns cws) ocrn) d of
                       None \<Rightarrow> Some (Inl NilDereference)
                     | Some cr \<Rightarrow>
                         if data cr = None then Some (Inr cws) else advanceReady cws cid)))"

text \<open>
  \<open>clientWindows.ack\<close>. The \<open>clientRequest\<close> it returns is given as the address of its
  \<open>clientReqNo\<close> and its digest.
\<close>

definition cws_ack ::
  "clientWindows \<Rightarrow> NodeID \<Rightarrow> RequestAck \<Rightarrow> (panic + (clientWindows \<times> nat \<times> digest)) option" where
  "cws_ack cws source ack =
     (case windows cws (ack_ClientId ack) of
        None \<Rightarrow> Some (Inl DevSanityTest)
      | Some cw \<Rightarrow>
          (case cw_ack (crns cws) cw source (ack_ReqNo ack) (ack_Digest ack) of
             Inl p \<Rightarrow> Some (Inl p)
           | Inr (h, a, newlyCorrectReq) \<Rightarrow>
               (case checkReady
                       (cws\<lparr>crns := h,
                            correctList :=
                              (case newlyCorrectReq of
                                 None \<Rightarrow> correctList cws
                               | Some r \<Rightarrow>
                                   correctList cws @ [ForwardRequest r (ack_Digest ack)])\<rparr>)
                       (ack_ClientId ack) a of
                  None \<Rightarrow> None
                | Some (Inl p) \<Rightarrow> Some (Inl p)
                | Some (Inr cws') \<Rightarrow> Some (Inr (cws', a, ack_Digest ack)))))"

definition cws_allocate ::
  "clientWindows \<Rightarrow> Request \<Rightarrow> digest \<Rightarrow> (panic + clientWindows) option" where
  "cws_allocate cws requestData d =
     (case windows cws (req_ClientId requestData) of
        None \<Rightarrow> Some (Inl DevSanityTest)
      | Some cw \<Rightarrow>
          (case cw_allocate (crns cws) cw requestData d of
             Inl p \<Rightarrow> Some (Inl p)
           | Inr (h, a, newlyCorrectReq) \<Rightarrow>
               checkReady
                 (cws\<lparr>crns := h,
                      correctList :=
                        (case newlyCorrectReq of
                           None \<Rightarrow> correctList cws
                         | Some r \<Rightarrow> correctList cws @ [ForwardRequest r d])\<rparr>)
                 (req_ClientId requestData) a))"

definition applyMsg ::
  "clientWindows \<Rightarrow> NodeID \<Rightarrow> Msg \<Rightarrow> (panic + (clientWindows \<times> Actions)) option" where
  "applyMsg cws source msg =
     (case msg of
        Msg_RequestAck ack \<Rightarrow>
          (case cws_ack cws source ack of
             None \<Rightarrow> None
           | Some (Inl p) \<Rightarrow> Some (Inl p)
           | Some (Inr (cws', cr)) \<Rightarrow> Some (Inr (cws', emptyActions)))
      | Msg_FetchRequest m \<Rightarrow>
          (case replyFetchRequest cws source (fetch_ClientId m) (fetch_ReqNo m) (fetch_Digest m) of
             Inl p \<Rightarrow> Some (Inl p)
           | Inr acts \<Rightarrow> Some (Inr (cws, acts)))
      | Msg_ForwardRequest fwd \<Rightarrow>
          if source = myConfig_Id cws then Some (Inr (cws, emptyActions))
          else Some (applyForwardRequest cws source fwd)
      | Msg_Other \<Rightarrow> Some (Inl BadMsgType))"

text \<open>
  Modelled from the spec: \<open>msgBuffer.store\<close> and \<open>msgBuffer.next\<close> are not among the
  sources. \<open>store\<close> adds the message at the end. \<open>next\<close> re-filters the buffer from the
  oldest message on: a message that is now \<open>past\<close> is discarded, the first that is now
  \<open>current\<close> is removed and returned, a \<open>future\<close> one stays; \<open>None\<close> is the nil result.
\<close>

fun mb_next :: "(Msg \<Rightarrow> panic + applyable) \<Rightarrow> msgBuffer \<Rightarrow> panic + (Msg option \<times> msgBuffer)" where
  "mb_next f [] = Inr (None, [])"
| "mb_next f (m # ms) =
     (case f m of
        Inl p \<Rightarrow> Inl p
      | Inr past \<Rightarrow> mb_next f ms
      | Inr current \<Rightarrow> Inr (Some m, ms)
      | Inr future \<Rightarrow>
          (case mb_next f ms of
             Inl p \<Rightarrow> Inl p
           | Inr (r, ms') \<Rightarrow> Inr (r, m # ms')))"

definition step ::
  "clientWindows \<Rightarrow> NodeID \<Rightarrow> Msg \<Rightarrow> (panic + (clientWindows \<times> Actions)) option" where
  "step cws source msg =
     (case filter_msg cws msg of
        Inl p \<Rightarrow> Some (Inl p)
      | Inr past \<Rightarrow> Some (Inr (cws, emptyActions))
      | Inr future \<Rightarrow>
          (case msgBuffers cws source of
             None \<Rightarrow> Some (Inl NilDereference)
           | Some buf \<Rightarrow>
               Some (Inr (cws\<lparr>msgBuffers := (msgBuffers cws)(source \<mapsto> buf @ [msg])\<rparr>,
                          emptyActions)))
      | Inr current \<Rightarrow> applyMsg cws source msg)"

subsection \<open>Garbage collection\<close>

text \<open>The first loop of \<open>clientWindows.garbageCollect\<close>: every client's window.\<close>

fun gcWindows :: "clientWindows \<Rightarrow> nat \<Rightarrow> nat list \<Rightarrow> panic + clientWindows" where
  "gcWindows cws seqNo [] = Inr cws"
| "gcWindows cws seqNo (cid # ids) =
     (case windows cws cid of
        None \<Rightarrow> Inl NilDereference
      | Some cw \<Rightarrow>
          (case cw_garbageCollect (crns cws) cw seqNo of
             (h, cw') \<Rightarrow>
               gcWindows (cws\<lparr>crns := h, windows := (windows cws)(cid \<mapsto> cw')\<rparr>) seqNo ids))"

text \<open>
  The second loop, the sweep of the ready list, with \<open>el\<close> the entry in hand. It runs as
  long as entries follow \<open>el\<close>; on a list that is linked into a cycle it need not end,
  and the result \<open>None\<close> stands for a sweep that does not return. An entry that is
  dropped is unlinked by putting a fresh copy of its successor behind \<open>el\<close>.
\<close>

partial_function (option) gcReadyList :: "clientWindows \<Rightarrow> nat \<Rightarrow> nat \<Rightarrow> clientWindows option" where
  "gcReadyList cws seqNo el =
     (case re_next (readyAt cws el) of
        None \<Rightarrow> Some cws
      | Some nextEl \<Rightarrow>
          (if (case committed (crnAt (crns cws) (re_clientReqNo (readyAt cws nextEl))) of
                 None \<Rightarrow> True
               | Some c \<Rightarrow> c > seqNo)
           then gcReadyList cws seqNo nextEl
           else (case re_next (readyAt cws nextEl) of
                   None \<Rightarrow> Some cws
                 | Some nn \<Rightarrow>
                     gcReadyList
                       (cws\<lparr>readyAt :=
                              ((readyAt cws)(readyFresh cws :=
                                  \<lparr>re_next = re_next (readyAt cws nn),
                                   re_clientReqNo = re_clientReqNo (readyAt cws nn)\<rparr>))
                                (el :=
                                   (((readyAt cws)(readyFresh cws :=
                                       \<lparr>re_next = re_next (readyAt cws nn),
                                        re_clientReqNo = re_clientReqNo (readyAt cws nn)\<rparr>))
                                      el)
                                     \<lparr>re_next := Some (readyFresh cws)\<rparr>),
                            readyFresh := Suc (readyFresh cws)\<rparr>)
                       seqNo el)))"

text \<open>
  The third loop: every node's buffer is drained of the messages that have become
  current, and each is applied; the \<open>Actions\<close> of the applications are dropped, as in the
  source.
\<close>

partial_function (option) drainBuffer :: "clientWindows \<Rightarrow> NodeID \<Rightarrow> (panic + clientWindows) option" where
  "drainBuffer cws nodeID =
     (case msgBuffers cws nodeID of
        None \<Rightarrow> Some (Inl NilDereference)
      | Some buf \<Rightarrow>
          (case mb_next (filter_msg cws) buf of
             Inl p \<Rightarrow> Some (Inl p)
           | Inr (None, buf') \<Rightarrow> Some (Inr (cws\<lparr>msgBuffers := (msgBuffers cws)(nodeID \<mapsto> buf')\<rparr>))
           | Inr (Some m, buf') \<Rightarrow>
               (case applyMsg (cws\<lparr>msgBuffers := (msgBuffers cws)(nodeID \<mapsto> buf')\<rparr>) nodeID m of
                  None \<Rightarrow> None
                | Some (Inl p) \<Rightarrow> Some (Inl p)
                | Some (Inr (cws', acts)) \<Rightarrow> drainBuffer cws' nodeID)))"

fun drainBuffers :: "clientWindows \<Rightarrow> NodeID list \<Rightarrow> (panic + clientWindows) option" where
  "drainBuffers cws [] = Some (Inr cws)"
| "drainBuffers cws (nodeID # ns) =
     (case drainBuffer cws nodeID of
        None \<Rightarrow> None
      | Some (Inl p) \<Rightarrow> Some (Inl p)
      | Some (Inr cws') \<Rightarrow> drainBuffers cws' ns)"

definition cws_garbageCollect :: "clientWindows \<Rightarrow> nat \<Rightarrow> (panic + clientWindows) option" where
  "cws_garbageCollect cws seqNo =
     (case gcWindows cws seqNo (clients cws) of
        Inl p \<Rightarrow> Some (Inl p)
      | Inr cws1 \<Rightarrow>
          (case gcReadyList cws1 seqNo (readyHead cws1) of
             None \<Rightarrow> None
           | Some cws2 \<Rightarrow>
               (case cws_networkConfig cws2 of
                  None \<Rightarrow> Some (Inl NilDereference)
                | Some cfg \<Rightarrow> drainBuffers cws2 (Nodes cfg))))"

subsection \<open>Construction from the persisted log\<close>

text \<open>
  The persisted log is read from its head on and never assigned to; it is the list of
  its entries. Of an entry only what \<open>newClientWindows\<close> reads is kept: the network
  state of a \<open>CEntry\<close>, the digest and the requests of a \<open>QEntry\<close>, the digest of a
  \<open>PEntry\<close>. The network state of a \<open>CEntry\<close> carries a configuration (the pointer is
  taken to be non-nil).
\<close>

record NetworkState_Client =
  Id :: nat
  BucketLowWatermarks :: "nat list"

record NetworkState =
  Config :: NetworkState_Config
  Clients :: "NetworkState_Client list"

datatype Persistent =
    Persistent_CEntry NetworkState
  | Persistent_QEntry digest "ForwardRequest list"
  | Persistent_PEntry digest

definition insert_window :: "clientWindows \<Rightarrow> nat \<Rightarrow> clientWindow \<Rightarrow> clientWindows" where
  "insert_window cws cid cw =
     cws\<lparr>windows := (windows cws)(cid \<mapsto> cw), clients := sort (clients cws @ [cid])\<rparr>"

text \<open>
  The loop over the clients of the first \<open>CEntry\<close>: the low watermark of a client is the
  least of its bucket low watermarks (reading the first of none is an index out of
  range), and its high watermark is \<open>lowWatermark + clientWindowWidth\<close>, a \<open>uint64\<close>
  addition, with \<open>clientWindowWidth = 100\<close>.
\<close>

fun addClients ::
  "clientWindows \<Rightarrow> NetworkState_Config \<Rightarrow> NetworkState_Client list
     \<Rightarrow> (panic + clientWindows) option" where
  "addClients cws cfg [] = Some (Inr cws)"
| "addClients cws cfg (client # cs) =
     (case BucketLowWatermarks client of
        [] \<Rightarrow> Some (Inl IndexOutOfRange)
      | b # bs \<Rightarrow>
          (case newClientWindow (crns cws) (Id client)
                  (fold (\<lambda>blw lw. if blw < lw then blw else lw) (b # bs) b)
                  (wrap64 (fold (\<lambda>blw lw. if blw < lw then blw else lw) (b # bs) b + 100)) cfg of
             None \<Rightarrow> None
           | Some (h, cw) \<Rightarrow>
               addClients (insert_window (cws\<lparr>crns := h\<rparr>) (Id client) cw) cfg cs))"

text \<open>
  The loop over the batch of a \<open>PEntry\<close>: the request is allocated in the window of its
  client (the window's own \<open>allocate\<close>; a client without a window is the nil pointer),
  and \<open>strongRequest\<close> is assigned \<open>digests[string(request.Digest)]\<close>.
\<close>

fun replayBatch :: "clientWindows \<Rightarrow> ForwardRequest list \<Rightarrow> panic + clientWindows" where
  "replayBatch cws [] = Inr cws"
| "replayBatch cws (r # rs) =
     (case windows cws (req_ClientId (fwd_Request r)) of
        None \<Rightarrow> Inl NilDereference
      | Some cw \<Rightarrow>
          (case cw_allocate (crns cws) cw (fwd_Request r) (fwd_Digest r) of
             Inl p \<Rightarrow> Inl p
           | Inr (h, a, newlyCorrectReq) \<Rightarrow>
               replayBatch
                 (cws\<lparr>crns := h\<lparr>crnAt := (crnAt h)(a :=
                         (crnAt h a)\<lparr>strongRequest :=
                            (case digests (crnAt h a) (fwd_Digest r) of
                               None \<Rightarrow> None
                             | Some cr \<Rightarrow> Some (fwd_Digest r))\<rparr>)\<rparr>\<rparr>)
                 rs))"

text \<open>
  The loop over the log. \<open>batches\<close>, a local variable of the source, holds the requests of
  the \<open>QEntry\<close>s read so far, by digest; the loop returns it with the windows.
\<close>

fun replayLog ::
  "clientWindows \<Rightarrow> (digest \<rightharpoonup> ForwardRequest list) \<Rightarrow> Persistent list
     \<Rightarrow> (panic + (clientWindows \<times> (digest \<rightharpoonup> ForwardRequest list))) option" where
  "replayLog cws batches [] = Some (Inr (cws, batches))"
| "replayLog cws batches (Persistent_CEntry ns # es) =
     (if cws_networkConfig cws = None
      then (case addClients (cws\<lparr>cws_networkConfig := Some (Config ns)\<rparr>) (Config ns) (Clients ns) of
              None \<Rightarrow> None
            | Some (Inl p) \<Rightarrow> Some (Inl p)
            | Some (Inr cws') \<Rightarrow> replayLog cws' batches es)
      else replayLog cws batches es)"
| "replayLog cws batches (Persistent_QEntry d reqs # es) =
     replayLog cws (batches(d \<mapsto> reqs)) es"
| "replayLog cws batches (Persistent_PEntry d # es) =
     (case batches d of
        None \<Rightarrow> Some (Inl DevSanityTest)
      | Some batch \<Rightarrow>
          (case replayBatch cws batch of
             Inl p \<Rightarrow> Some (Inl p)
           | Inr cws' \<Rightarrow> replayLog cws' batches es))"

fun advanceReadyAll :: "clientWindows \<Rightarrow> nat list \<Rightarrow> (panic + clientWindows) option" where
  "advanceReadyAll cws [] = Some (Inr cws)"
| "advanceReadyAll cws (cid # ids) =
     (case advanceReady cws cid of
        None \<Rightarrow> None
      | Some (Inl p) \<Rightarrow> Some (Inl p)
      | Some (Inr cws') \<Rightarrow> advanceReadyAll cws' ids)"

text \<open>
  The state before the log is read: no windows, and a ready list that holds the anchor
  alone, an entry whose \<open>clientReqNo\<close> is committed at \<open>math.MaxUint64\<close>. The anchor and
  its \<open>clientReqNo\<close> have address 0 in their stores; every other cell holds the zero
  value until it is handed out.
\<close>

definition initialClientWindows :: "nat \<Rightarrow> clientWindows" where
  "initialClientWindows myId =
     \<lparr>windows = Map.empty, clients = [], cws_networkConfig = None, msgBuffers = Map.empty,
      readyHead = 0, readyTail = 0,
      readyAt = (\<lambda>_. \<lparr>re_next = None, re_clientReqNo = 0\<rparr>),
      readyFresh = 1,
      crns = \<lparr>crnAt = (\<lambda>_. \<lparr>clientID = 0, reqNo = 0, digests = Map.empty,
                              committed = None, strongRequest = None\<rparr>)
                        (0 := \<lparr>clientID = 0, reqNo = 0, digests = Map.empty,
                               committed = Some (2 ^ 64 - 1), strongRequest = None\<rparr>),
               crnFresh = 1\<rparr>,
      correctList = [], myConfig_Id = myId\<rparr>"

text \<open>
  \<open>newClientWindows\<close>: replay the log, advance the ready mark of every client, and give
  every node of the configuration an empty buffer (\<open>newMsgBuffer\<close>, which is not among
  the sources). A log without a \<open>CEntry\<close> leaves the configuration nil.
\<close>

definition newClientWindows :: "Persistent list \<Rightarrow> nat \<Rightarrow> (panic + clientWindows) option" where
  "newClientWindows persisted myId =
     (case replayLog (initialClientWindows myId) Map.empty persisted of
        None \<Rightarrow> None
      | Some (Inl p) \<Rightarrow> Some (Inl p)
      | Some (Inr (cws1, batches)) \<Rightarrow>
          (case advanceReadyAll cws1 (clients cws1) of
             None \<Rightarrow> None
           | Some (Inl p) \<Rightarrow> Some (Inl p)
           | Some (Inr cws2) \<Rightarrow>
               (case cws_networkConfig cws2 of
                  None \<Rightarrow> Some (Inl NilDereference)
                | Some cfg \<Rightarrow>
                    Some (Inr (cws2\<lparr>msgBuffers :=
                           fold (\<lambda>n m. m(n \<mapsto> [])) (Nodes cfg) (msgBuffers cws2)\<rparr>)))))"

section \<open>The serial processor\<close>

text \<open>
  \<open>ProcessSerially\<close> of \<open>processor.go\<close> and the three functions it calls. The processor
  drives the collaborators \<open>Link\<close>, \<open>Log\<close>, \<open>WAL\<close> and \<open>RequestStore\<close>, which are
  interfaces. Each call of a collaborator is recorded as an \<open>effect\<close>, in the order of
  the calls, and what a call returns is read from the \<open>Processor\<close> record as a function of
  the effects so far (so a collaborator may fail at one call and not at another). The
  payload types \<open>pb.Persistent\<close>, \<open>pb.QEntry\<close> and the messages other than the forwarded
  request are opaque to the processor: they are the type parameters \<open>'p\<close>, \<open>'q\<close> and
  \<open>'m\<close>. The \<open>Actions\<close> of this file have the fields that \<open>processor.go\<close> reads; the record
  is named \<open>ProcActions\<close> to keep it apart from the \<open>Actions\<close> of the client windows.
\<close>

record StoreRequest =
  sr_RequestAck :: RequestAck
  sr_RequestData :: string

datatype 'm ProcMsg = ProcMsg_ForwardRequest RequestAck string | ProcMsg_Other 'm

record 'm ProcSend =
  ps_Targets :: "nat list"
  ps_Msg :: "'m ProcMsg"

record Forward =
  fw_RequestAck :: RequestAck
  fw_Targets :: "nat list"

record ProcHashRequest =
  ph_Data :: "string list"

record 'q Commit =
  QEntry :: 'q
  Checkpoint :: bool

record ('p, 'm, 'q) ProcActions =
  StoreRequests :: "StoreRequest list"
  Persist :: "'p list"
  Send :: "'m ProcSend list"
  ForwardRequests :: "Forward list"
  Hash :: "ProcHashRequest list"
  Commits :: "'q Commit list"

datatype ('p, 'm, 'q) effect =
    RequestStore_Store RequestAck string
  | RequestStore_Sync
  | WAL_Append 'p
  | WAL_Sync
  | RequestStore_Get RequestAck
  | Link_Send nat "'m ProcMsg"
  | Node_Step nat "'m ProcMsg"
  | Log_Apply 'q
  | Log_Snap

datatype procPanic =
    CouldNotSyncRequestStore string  \<comment> \<open>"could not sync request store, unsafe to continue"\<close>
  | CouldNotPersistEntry string      \<comment> \<open>"could not persist entry, not safe to continue"\<close>
  | CouldNotSyncWAL string           \<comment> \<open>"could not sync WAL, not safe to continue"\<close>
  | CouldNotStoreRequest string      \<comment> \<open>"could not store request, unsafe to continue" (on \<open>Get\<close>)\<close>

text \<open>
  What the collaborators return. \<open>None\<close> is a nil \<open>error\<close>, \<open>Some e\<close> the error \<open>e\<close>;
  \<open>Get\<close> returns the error (\<open>Inl\<close>) or the data (\<open>Inr\<close>). \<open>Link.Send\<close>, \<open>Log.Apply\<close> and
  \<open>Node.Step\<close> return nothing that the processor reads.
\<close>

record ('p, 'm, 'q) Processor =
  Store_result :: "('p, 'm, 'q) effect list \<Rightarrow> RequestAck \<Rightarrow> string \<Rightarrow> string option"
  RequestStore_Sync_result :: "('p, 'm, 'q) effect list \<Rightarrow> string option"
  Append_result :: "('p, 'm, 'q) effect list \<Rightarrow> 'p \<Rightarrow> string option"
  WAL_Sync_result :: "('p, 'm, 'q) effect list \<Rightarrow> string option"
  Get_result :: "('p, 'm, 'q) effect list \<Rightarrow> RequestAck \<Rightarrow> string + string"
  Snap_result :: "('p, 'm, 'q) effect list \<Rightarrow> string"
  Hasher :: "string list \<Rightarrow> string"
  Node_Config_ID :: nat

record ProcHashResult =
  phr_Request :: ProcHashRequest
  phr_Digest :: string

record 'q CheckpointResult =
  cpr_Commit :: "'q Commit"
  cpr_Value :: string

record 'q ActionResults =
  Digests :: "ProcHashResult list"
  Checkpoints :: "'q CheckpointResult list"

text \<open>
  The first loop of \<open>persistSerially\<close>: \<open>sp.RequestStore.Store(...)\<close> is called as a
  statement, so whatever it returns is dropped.
\<close>

fun storeRequests ::
  "('p, 'm, 'q) Processor \<Rightarrow> StoreRequest list \<Rightarrow> ('p, 'm, 'q) effect list \<Rightarrow> ('p, 'm, 'q) effect list" where
  "storeRequests sp [] tr = tr"
| "storeRequests sp (r # rs) tr =
     (case Store_result sp tr (sr_RequestAck r) (sr_RequestData r) of
        _ \<Rightarrow> storeRequests sp rs (tr @ [RequestStore_Store (sr_RequestAck r) (sr_RequestData r)]))"

text \<open>The second loop of \<open>persistSerially\<close>: an error of \<open>WAL.Append\<close> panics.\<close>

fun appendEntries ::
  "('p, 'm, 'q) Processor \<Rightarrow> 'p list \<Rightarrow> ('p, 'm, 'q) effect list
     \<Rightarrow> ('p, 'm, 'q) effect list \<times> procPanic option" where
  "appendEntries sp [] tr = (tr, None)"
| "appendEntries sp (p # ps) tr =
     (case Append_result sp tr p of
        Some err \<Rightarrow> (tr @ [WAL_Append p], Some (CouldNotPersistEntry err))
      | None \<Rightarrow> appendEntries sp ps (tr @ [WAL_Append p]))"

definition persistSerially ::
  "('p, 'm, 'q) Processor \<Rightarrow> ('p, 'm, 'q) ProcActions \<Rightarrow> ('p, 'm, 'q) effect list
     \<Rightarrow> ('p, 'm, 'q) effect list \<times> procPanic option" where
  "persistSerially sp actions tr =
     (let tr1 = storeRequests sp (StoreRequests actions) tr in
      case RequestStore_Sync_result sp tr1 of
        Some err \<Rightarrow> (tr1 @ [RequestStore_Sync], Some (CouldNotSyncRequestStore err))
      | None \<Rightarrow>
          (case appendEntries sp (Persist actions) (tr1 @ [RequestStore_Sync]) of
             (tr2, Some p) \<Rightarrow> (tr2, Some p)
           | (tr2, None) \<Rightarrow>
               (case WAL_Sync_result sp tr2 of
                  Some err \<Rightarrow> (tr2 @ [WAL_Sync], Some (CouldNotSyncWAL err))
                | None \<Rightarrow> (tr2 @ [WAL_Sync], None))))"

text \<open>
  The inner loop of both halves of \<open>transmitSerially\<close>: a message for this node is
  stepped into the node, any other is sent over the link.
\<close>

fun toTargets ::
  "('p, 'm, 'q) Processor \<Rightarrow> 'm ProcMsg \<Rightarrow> nat list \<Rightarrow> ('p, 'm, 'q) effect list \<Rightarrow> ('p, 'm, 'q) effect list" where
  "toTargets sp m [] tr = tr"
| "toTargets sp m (replica # rs) tr =
     toTargets sp m rs
       (tr @ [if replica = Node_Config_ID sp then Node_Step replica m else Link_Send replica m])"

fun sendAll ::
  "('p, 'm, 'q) Processor \<Rightarrow> 'm ProcSend list \<Rightarrow> ('p, 'm, 'q) effect list \<Rightarrow> ('p, 'm, 'q) effect list" where
  "sendAll sp [] tr = tr"
| "sendAll sp (s # ss) tr = sendAll sp ss (toTargets sp (ps_Msg s) (ps_Targets s) tr)"

fun forwardAll ::
  "('p, 'm, 'q) Processor \<Rightarrow> Forward list \<Rightarrow> ('p, 'm, 'q) effect list
     \<Rightarrow> ('p, 'm, 'q) effect list \<times> procPanic option" where
  "forwardAll sp [] tr = (tr, None)"
| "forwardAll sp (r # rs) tr =
     (case Get_result sp tr (fw_RequestAck r) of
        Inl err \<Rightarrow> (tr @ [RequestStore_Get (fw_RequestAck r)], Some (CouldNotStoreRequest err))
      | Inr requestData \<Rightarrow>
          forwardAll sp rs
            (toTargets sp (ProcMsg_ForwardRequest (fw_RequestAck r) requestData) (fw_Targets r)
               (tr @ [RequestStore_Get (fw_RequestAck r)])))"

definition transmitSerially ::
  "('p, 'm, 'q) Processor \<Rightarrow> ('p, 'm, 'q) ProcActions \<Rightarrow> ('p, 'm, 'q) effect list
     \<Rightarrow> ('p, 'm, 'q) effect list \<times> procPanic option" where
  "transmitSerially sp actions tr =
     forwardAll sp (ForwardRequests actions) (sendAll sp (Send actions) tr)"

fun applyCommits ::
  "('p, 'm, 'q) Processor \<Rightarrow> 'q Commit list \<Rightarrow> ('p, 'm, 'q) effect list \<Rightarrow> 'q CheckpointResult list
     \<Rightarrow> ('p, 'm, 'q) effect list \<times> 'q CheckpointResult list" where
  "applyCommits sp [] tr cps = (tr, cps)"
| "applyCommits sp (c # cs) tr cps =
     (if Checkpoint c
      then applyCommits sp cs (tr @ [Log_Apply (QEntry c), Log_Snap])
             (cps @ [\<lparr>cpr_Commit = c, cpr_Value = Snap_result sp (tr @ [Log_Apply (QEntry c)])\<rparr>])
      else applyCommits sp cs (tr @ [Log_Apply (QEntry c)]) cps)"

definition applySerially ::
  "('p, 'm, 'q) Processor \<Rightarrow> ('p, 'm, 'q) ProcActions \<Rightarrow> ('p, 'm, 'q) effect list
     \<Rightarrow> ('p, 'm, 'q) effect list \<times> 'q ActionResults" where
  "applySerially sp actions tr =
     (case applyCommits sp (Commits actions) tr [] of
        (tr', cps) \<Rightarrow>
          (tr', \<lparr>Digests = map (\<lambda>req. \<lparr>phr_Request = req, phr_Digest = Hasher sp (ph_Data req)\<rparr>)
                               (Hash actions),
                 Checkpoints = cps\<rparr>))"

text \<open>
  \<open>ProcessSerially\<close>: the effects of the call, in order, and either the panic that
  ended it or the \<open>ActionResults\<close> it returned.
\<close>

definition ProcessSerially ::
  "('p, 'm, 'q) ProcActions \<Rightarrow> ('p, 'm, 'q) Processor
     \<Rightarrow> ('p, 'm, 'q) effect list \<times> (procPanic + 'q ActionResults)" where
  "ProcessSerially actions sp =
     (case persistSerially sp actions [] of
        (tr1, Some p) \<Rightarrow> (tr1, Inl p)
      | (tr1, None) \<Rightarrow>
          (case transmitSerially sp actions tr1 of
             (tr2, Some p) \<Rightarrow> (tr2, Inl p)
           | (tr2, None) \<Rightarrow>
               (case applySerially sp actions tr2 of
                  (tr3, res) \<Rightarrow> (tr3, Inr res))))"

text \<open>The kinds of effect.\<close>

fun isPersistence :: "('p, 'm, 'q) effect \<Rightarrow> bool" where
  "isPersistence (RequestStore_Store a d) = True"
| "isPersistence RequestStore_Sync = True"
| "isPersistence (WAL_Append p) = True"
| "isPersistence WAL_Sync = True"
| "isPersistence e = False"

fun isTransmission :: "('p, 'm, 'q) effect \<Rightarrow> bool" where
  "isTransmission (Link_Send n m) = True"
| "isTransmission (Node_Step n m) = True"
| "isTransmission e = False"

fun isCommitApply :: "('p, 'm, 'q) effect \<Rightarrow> bool" where
  "isCommitApply (Log_Apply q) = True"
| "isCommitApply e = False"

text \<open>
  The effects of a \<open>persistSerially\<close> that runs to its end, and the two later phases of
  \<open>ProcessSerially\<close>: the effects that are neither persistence nor the application of a
  commit (sends, steps and the reads of the request store made to forward a request),
  and those that are neither persistence nor transmission (applications and snapshots).
\<close>

definition persistEffects :: "('p, 'm, 'q) ProcActions \<Rightarrow> ('p, 'm, 'q) effect list" where
  "persistEffects actions =
     map (\<lambda>r. RequestStore_Store (sr_RequestAck r) (sr_RequestData r)) (StoreRequests actions)
     @ [RequestStore_Sync] @ map WAL_Append (Persist actions) @ [WAL_Sync]"

definition isTransmitPhase :: "('p, 'm, 'q) effect \<Rightarrow> bool" where
  "isTransmitPhase e = (\<not> isPersistence e \<and> \<not> isCommitApply e)"

definition isApplyPhase :: "('p, 'm, 'q) effect \<Rightarrow> bool" where
  "isApplyPhase e = (\<not> isPersistence e \<and> \<not> isTransmission e)"

section \<open>Notions used to state the properties\<close>

text \<open>
  The classification by watermarks in the words of the specification: \<open>past\<close> below the
  low watermark of the client, \<open>future\<close> above its high watermark or when the client has no
  window, \<open>current\<close> otherwise.
\<close>

definition watermarkClass :: "clientWindows \<Rightarrow> nat \<Rightarrow> nat \<Rightarrow> applyable" where
  "watermarkClass cws cid rn =
     (case windows cws cid of
        None \<Rightarrow> future
      | Some cw \<Rightarrow>
          if rn < lowWatermark cw then past
          else if rn > highWatermark cw then future
          else current)"

text \<open>
  The agreement set and the request data recorded for digest \<open>d\<close> at the \<open>clientReqNo\<close>
  at address \<open>a\<close>; a digest that is not recorded has no agreements and no data.
\<close>

definition ackSet :: "crnStore \<Rightarrow> nat \<Rightarrow> digest \<Rightarrow> NodeID set" where
  "ackSet h a d = (case digests (crnAt h a) d of None \<Rightarrow> {} | Some cr \<Rightarrow> agreements cr)"

definition ackData :: "crnStore \<Rightarrow> nat \<Rightarrow> digest \<Rightarrow> Request option" where
  "ackData h a d = (case digests (crnAt h a) d of None \<Rightarrow> None | Some cr \<Rightarrow> data cr)"

text \<open>
  The shape of a window between two request numbers: \<open>reqNoList\<close> holds the
  \<open>clientReqNo\<close>s of the request numbers from \<open>lo\<close> up to, not including, \<open>nxt\<close>, in this
  order; \<open>reqNoMap\<close> maps exactly these numbers, each to its list entry; and every entry
  is an address that has been handed out. \<open>windowOK\<close> is this shape between the
  watermarks, which are \<open>uint64\<close> values. \<open>removedBy\<close> is the number of entries that
  \<open>clientWindow.garbageCollect\<close> removes from the front of the window.
\<close>

definition windowSpan :: "nat \<Rightarrow> nat \<Rightarrow> crnStore \<Rightarrow> clientWindow \<Rightarrow> bool" where
  "windowSpan lo nxt h cw =
     (map (\<lambda>a. reqNo (crnAt h a)) (reqNoList cw) = [lo..<nxt]
      \<and> (\<forall>i < length (reqNoList cw). reqNoMap cw (lo + i) = Some (reqNoList cw ! i))
      \<and> dom (reqNoMap cw) = {lo..<nxt}
      \<and> (\<forall>a \<in> set (reqNoList cw). a < crnFresh h))"

definition windowOK :: "crnStore \<Rightarrow> clientWindow \<Rightarrow> bool" where
  "windowOK h cw =
     (windowSpan (lowWatermark cw) (Suc (highWatermark cw)) h cw
      \<and> lowWatermark cw < 2 ^ 64 \<and> highWatermark cw < 2 ^ 64)"

text \<open>
  The window with one fresh entry for each request number from \<open>low\<close> to \<open>high\<close>, in this
  order; it is what \<open>newClientWindow\<close> returns when it returns.
\<close>

definition windowOf ::
  "crnStore \<Rightarrow> nat \<Rightarrow> nat \<Rightarrow> nat \<Rightarrow> NetworkState_Config \<Rightarrow> crnStore \<times> clientWindow" where
  "windowOf h cid low high cfg =
     fold pushBackReqNo [low..<Suc high]
       (h, \<lparr>cw_clientID = cid, nextReadyMark = low, lowWatermark = low,
            highWatermark = high, reqNoList = [], reqNoMap = Map.empty,
            networkConfig = cfg\<rparr>)"

definition removedBy :: "crnStore \<Rightarrow> clientWindow \<Rightarrow> nat \<Rightarrow> nat" where
  "removedBy h cw maxSeqNo = snd (gcFront h maxSeqNo cw 0)"

text \<open>
  A request number is releasable when \<open>advanceReady\<close> would release it: the window maps
  it to a \<open>clientReqNo\<close> whose \<open>strongRequest\<close> is set and has its data. \<open>readyRun\<close> is the
  longest run of releasable request numbers from \<open>i\<close> up to the high watermark.
\<close>

definition releasable :: "crnStore \<Rightarrow> clientWindow \<Rightarrow> nat \<Rightarrow> bool" where
  "releasable h cw i =
     (case reqNoMap cw i of
        None \<Rightarrow> False
      | Some a \<Rightarrow>
          (case strongRequest (crnAt h a) of
             None \<Rightarrow> False
           | Some d \<Rightarrow>
               (case digests (crnAt h a) d of
                  None \<Rightarrow> False
                | Some cr \<Rightarrow> data cr \<noteq> None)))"

definition readyRun :: "crnStore \<Rightarrow> clientWindow \<Rightarrow> nat \<Rightarrow> nat list" where
  "readyRun h cw i = takeWhile (releasable h cw) [i..<Suc (highWatermark cw)]"

text \<open>
  No \<open>strongRequest\<close> dangles: the digest it stands for is recorded in \<open>digests\<close> (see the
  conventions: the source only ever assigns it an entry of \<open>digests\<close>).
\<close>

definition strongOK :: "crnStore \<Rightarrow> bool" where
  "strongOK h = (\<forall>a d. strongRequest (crnAt h a) = Some d \<longrightarrow> digests (crnAt h a) d \<noteq> None)"

text \<open>
  \<open>readyPath ra a bs\<close>: in the store \<open>ra\<close>, following \<open>next\<close> from the entry at \<open>a\<close> visits
  exactly the entries \<open>bs\<close>, in this order, and the last of them has no \<open>next\<close>.
\<close>

fun readyPath :: "(nat \<Rightarrow> readyEntry) \<Rightarrow> nat \<Rightarrow> nat list \<Rightarrow> bool" where
  "readyPath ra a [] = (re_next (ra a) = None)"
| "readyPath ra a (b # bs) = (re_next (ra a) = Some b \<and> readyPath ra b bs)"

text \<open>
  What a run of \<open>advanceReady\<close> from request number \<open>i\<close> has done when it has released the
  request numbers \<open>run\<close>: only the windows and the ready list have changed; the mark of the
  client has moved past the run; and one new entry per released number, in this order, is
  linked behind the path \<open>bs\<close> that led from \<open>s\<close> to the old tail.
\<close>

definition advancedTo ::
  "clientWindows \<Rightarrow> nat \<Rightarrow> clientWindow \<Rightarrow> nat \<Rightarrow> nat \<Rightarrow> nat list \<Rightarrow> nat list \<Rightarrow> clientWindows \<Rightarrow> bool" where
  "advancedTo cws cid cw i s bs run cws' =
     (cws' = cws\<lparr>windows := windows cws', readyAt := readyAt cws',
                   readyFresh := readyFresh cws', readyTail := readyTail cws'\<rparr>
      \<and> windows cws' = (if run = [] then windows cws
                        else (windows cws)(cid \<mapsto> cw\<lparr>nextReadyMark := i + length run\<rparr>))
      \<and> readyFresh cws' = readyFresh cws + length run
      \<and> readyTail cws' = last (readyTail cws # [readyFresh cws..<readyFresh cws + length run])
      \<and> readyPath (readyAt cws') s (bs @ [readyFresh cws..<readyFresh cws + length run])
      \<and> map (\<lambda>b. Some (re_clientReqNo (readyAt cws' b))) [readyFresh cws..<readyFresh cws + length run]
          = map (reqNoMap cw) run
      \<and> (\<forall>b < readyFresh cws. re_clientReqNo (readyAt cws' b) = re_clientReqNo (readyAt cws b)))"

text \<open>
  An entry's \<open>clientReqNo\<close> is \<open>collected\<close> at \<open>seqNo\<close> when its \<open>committed\<close> is set and at
  most \<open>seqNo\<close>. \<open>sweepResult\<close> is what a sweep leaves of a list: every element but the
  last is dropped when \<open>dr\<close> holds of it, and the last is always kept.
\<close>

definition collected :: "crnStore \<Rightarrow> nat \<Rightarrow> nat \<Rightarrow> bool" where
  "collected h seqNo a = (case committed (crnAt h a) of None \<Rightarrow> False | Some c \<Rightarrow> c \<le> seqNo)"

fun sweepResult :: "(nat \<Rightarrow> bool) \<Rightarrow> nat list \<Rightarrow> nat list" where
  "sweepResult dr [] = []"
| "sweepResult dr [v] = [v]"
| "sweepResult dr (v # w # vs) =
     (if dr v then sweepResult dr (w # vs) else v # sweepResult dr (w # vs))"

text \<open>
  What a sweep of the ready list from the entry \<open>el\<close>, followed by the entries \<open>bs\<close>, has
  done when it ends with the entries \<open>bs'\<close> behind \<open>el\<close>: only the store of ready entries
  has changed, and in it only entries of the swept path and fresh ones.
\<close>

definition sweptTo :: "clientWindows \<Rightarrow> nat \<Rightarrow> nat \<Rightarrow> nat list \<Rightarrow> clientWindows \<Rightarrow> nat list \<Rightarrow> bool" where
  "sweptTo cws seqNo el bs cws' bs' =
     (cws' = cws\<lparr>readyAt := readyAt cws', readyFresh := readyFresh cws'\<rparr>
      \<and> readyFresh cws \<le> readyFresh cws'
      \<and> readyPath (readyAt cws') el bs'
      \<and> map (\<lambda>b. re_clientReqNo (readyAt cws' b)) bs'
          = sweepResult (collected (crns cws) seqNo) (map (\<lambda>b. re_clientReqNo (readyAt cws b)) bs)
      \<and> re_clientReqNo (readyAt cws' el) = re_clientReqNo (readyAt cws el)
      \<and> (\<forall>x < readyFresh cws. x \<notin> set (el # bs) \<longrightarrow> readyAt cws' x = readyAt cws x)
      \<and> (\<forall>b \<in> set (el # bs'). b < readyFresh cws'))"


text \<open>
  A window whose ready mark has been moved past the run of releasable request numbers
  that starts at it.
\<close>

definition advancedMark :: "crnStore \<Rightarrow> clientWindow \<Rightarrow> clientWindow" where
  "advancedMark h cw =
     cw\<lparr>nextReadyMark := nextReadyMark cw + length (readyRun h cw (nextReadyMark cw))\<rparr>"

section \<open>Properties of the serial processor\<close>

lemma storeRequests_trace:
  "storeRequests sp rs tr = tr @ map (\<lambda>r. RequestStore_Store (sr_RequestAck r) (sr_RequestData r)) rs"
  by (induction rs arbitrary: tr) auto

lemma appendEntries_trace:
  "\<exists>k. fst (appendEntries sp ps tr) = tr @ map WAL_Append (take k ps)
     \<and> (snd (appendEntries sp ps tr) = None \<longrightarrow> k = length ps)"
proof (induction ps arbitrary: tr)
  case Nil
  then show ?case by simp
next
  case (Cons p ps)
  show ?case
  proof (cases "Append_result sp tr p")
    case None
    from Cons [of "tr @ [WAL_Append p]"] obtain k where
      k: "fst (appendEntries sp ps (tr @ [WAL_Append p])) = (tr @ [WAL_Append p]) @ map WAL_Append (take k ps)"
         "snd (appendEntries sp ps (tr @ [WAL_Append p])) = None \<longrightarrow> k = length ps"
      by auto
    show ?thesis
      by (rule exI [of _ "Suc k"]) (use None k in simp)
  next
    case (Some err)
    show ?thesis
      by (rule exI [of _ "Suc 0"]) (use Some in simp)
  qed
qed

lemma persistSerially_trace:
  "\<exists>P. fst (persistSerially sp actions []) = P \<and> list_all isPersistence P
     \<and> (snd (persistSerially sp actions []) = None \<longrightarrow> P = persistEffects actions)"
proof -
  let ?tr1 = "map (\<lambda>r. RequestStore_Store (sr_RequestAck r) (sr_RequestData r)) (StoreRequests actions)"
  obtain k where k:
    "fst (appendEntries sp (Persist actions) (?tr1 @ [RequestStore_Sync]))
       = (?tr1 @ [RequestStore_Sync]) @ map WAL_Append (take k (Persist actions))"
    "snd (appendEntries sp (Persist actions) (?tr1 @ [RequestStore_Sync])) = None
       \<longrightarrow> k = length (Persist actions)"
    using appendEntries_trace by blast
  have all1: "list_all isPersistence ?tr1"
    by (simp add: list_all_iff)
  have all2: "list_all isPersistence (map WAL_Append (take k (Persist actions)))"
    by (simp add: list_all_iff)
  show ?thesis
    using k all1 all2
    by (cases "appendEntries sp (Persist actions) (?tr1 @ [RequestStore_Sync])")
       (auto simp: persistSerially_def persistEffects_def storeRequests_trace Let_def
             split: option.splits)
qed

lemma toTargets_trace:
  "\<exists>Y. toTargets sp m ts tr = tr @ Y \<and> list_all isTransmission Y"
proof (induction ts arbitrary: tr)
  case Nil
  then show ?case by simp
next
  case (Cons t ts)
  let ?e = "if t = Node_Config_ID sp then Node_Step t m else Link_Send t m"
  from Cons [of "tr @ [?e]"] obtain Y where
    "toTargets sp m ts (tr @ [?e]) = (tr @ [?e]) @ Y" "list_all isTransmission Y"
    by auto
  then show ?case
    by (intro exI [of _ "?e # Y"]) simp
qed

lemma sendAll_trace:
  "\<exists>Y. sendAll sp ss tr = tr @ Y \<and> list_all isTransmission Y"
proof (induction ss arbitrary: tr)
  case Nil
  then show ?case by simp
next
  case (Cons s ss)
  obtain Y1 where Y1: "toTargets sp (ps_Msg s) (ps_Targets s) tr = tr @ Y1" "list_all isTransmission Y1"
    using toTargets_trace by blast
  from Cons [of "tr @ Y1"] obtain Y2 where
    Y2: "sendAll sp ss (tr @ Y1) = (tr @ Y1) @ Y2" "list_all isTransmission Y2"
    by auto
  show ?case
    by (intro exI [of _ "Y1 @ Y2"]) (use Y1 Y2 in simp)
qed

lemma isTransmission_phase: "isTransmission e \<Longrightarrow> isTransmitPhase e"
  by (cases e) (simp_all add: isTransmitPhase_def)

lemma list_all_phase: "list_all isTransmission Y \<Longrightarrow> list_all isTransmitPhase Y"
  by (simp add: list_all_iff isTransmission_phase)

lemma forwardAll_trace:
  "\<exists>Z. fst (forwardAll sp rs tr) = tr @ Z \<and> list_all isTransmitPhase Z"
proof (induction rs arbitrary: tr)
  case Nil
  then show ?case by simp
next
  case (Cons r rs)
  let ?g = "RequestStore_Get (fw_RequestAck r) :: ('a, 'b, 'c) effect"
  have g: "isTransmitPhase ?g" by (simp add: isTransmitPhase_def)
  show ?case
  proof (cases "Get_result sp tr (fw_RequestAck r)")
    case (Inl err)
    show ?thesis
      by (intro exI [of _ "[?g]"]) (use Inl g in simp)
  next
    case (Inr requestData)
    obtain Y where Y:
      "toTargets sp (ProcMsg_ForwardRequest (fw_RequestAck r) requestData) (fw_Targets r) (tr @ [?g])
         = (tr @ [?g]) @ Y" "list_all isTransmission Y"
      using toTargets_trace by blast
    from Cons [of "(tr @ [?g]) @ Y"] obtain Z where
      Z: "fst (forwardAll sp rs ((tr @ [?g]) @ Y)) = ((tr @ [?g]) @ Y) @ Z" "list_all isTransmitPhase Z"
      by auto
    show ?thesis
      by (intro exI [of _ "?g # Y @ Z"]) (use Inr g Y Z list_all_phase [OF Y(2)] in simp)
  qed
qed

lemma transmitSerially_trace:
  "\<exists>T. fst (transmitSerially sp actions tr) = tr @ T \<and> list_all isTransmitPhase T"
proof -
  obtain Y where Y: "sendAll sp (Send actions) tr = tr @ Y" "list_all isTransmission Y"
    using sendAll_trace by blast
  obtain Z where Z: "fst (forwardAll sp (ForwardRequests actions) (tr @ Y)) = (tr @ Y) @ Z"
      "list_all isTransmitPhase Z"
    using forwardAll_trace by blast
  show ?thesis
    by (intro exI [of _ "Y @ Z"]) (use Y Z list_all_phase [OF Y(2)] in \<open>simp add: transmitSerially_def\<close>)
qed

lemma isApplyPhase_simps [simp]: "isApplyPhase (Log_Apply q)" "isApplyPhase Log_Snap"
  by (simp_all add: isApplyPhase_def)

lemma applyCommits_trace:
  "\<exists>A. fst (applyCommits sp cs tr cps) = tr @ A \<and> list_all isApplyPhase A"
proof (induction cs arbitrary: tr cps)
  case Nil
  then show ?case by simp
next
  case (Cons c cs)
  show ?case
  proof (cases "Checkpoint c")
    case True
    from Cons [of "tr @ [Log_Apply (QEntry c), Log_Snap]"] obtain A where
      A: "fst (applyCommits sp cs (tr @ [Log_Apply (QEntry c), Log_Snap])
               (cps @ [\<lparr>cpr_Commit = c, cpr_Value = Snap_result sp (tr @ [Log_Apply (QEntry c)])\<rparr>]))
            = (tr @ [Log_Apply (QEntry c), Log_Snap]) @ A" "list_all isApplyPhase A"
      by auto
    show ?thesis
      by (intro exI [of _ "Log_Apply (QEntry c) # Log_Snap # A"])
         (use True A in simp)
  next
    case False
    from Cons [of "tr @ [Log_Apply (QEntry c)]" cps] obtain A where
      A: "fst (applyCommits sp cs (tr @ [Log_Apply (QEntry c)]) cps) = (tr @ [Log_Apply (QEntry c)]) @ A"
         "list_all isApplyPhase A"
      by auto
    show ?thesis
      by (intro exI [of _ "Log_Apply (QEntry c) # A"])
         (use False A in simp)
  qed
qed

lemma applySerially_trace:
  "\<exists>A. fst (applySerially sp actions tr) = tr @ A \<and> list_all isApplyPhase A"
proof -
  obtain A where "fst (applyCommits sp (Commits actions) tr []) = tr @ A" "list_all isApplyPhase A"
    using applyCommits_trace by blast
  then show ?thesis
    by (intro exI [of _ A]) (simp add: applySerially_def case_prod_beta)
qed

text \<open>
  Claim C8. In \<open>ProcessSerially\<close> the effects are, in this order: persistence effects only
  (\<open>P\<close>), then effects that are neither persistence nor the application of a commit
  (\<open>T\<close>: every \<open>Link.Send\<close> and every self-\<open>Step\<close> is here), then effects that are neither
  persistence nor transmission (\<open>A\<close>: every \<open>Log.Apply\<close> is here). Whenever anything at all
  follows the persistence phase, or the call returns, the persistence phase is complete:
  every \<open>RequestStore.Store\<close>, then \<open>RequestStore.Sync\<close>, then every \<open>WAL.Append\<close>, then
  \<open>WAL.Sync\<close>. The statement covers the runs that end in a panic as well.
\<close>

theorem ProcessSerially_persist_transmit_apply:
  "\<exists>P T A. fst (ProcessSerially actions sp) = P @ T @ A
     \<and> list_all isPersistence P
     \<and> list_all (\<lambda>e. \<not> isPersistence e \<and> \<not> isCommitApply e) T
     \<and> list_all (\<lambda>e. \<not> isPersistence e \<and> \<not> isTransmission e) A
     \<and> (T @ A \<noteq> [] \<or> (\<exists>res. snd (ProcessSerially actions sp) = Inr res)
          \<longrightarrow> P = persistEffects actions)"
proof -
  obtain P where P: "fst (persistSerially sp actions []) = P" "list_all isPersistence P"
      "snd (persistSerially sp actions []) = None \<longrightarrow> P = persistEffects actions"
    using persistSerially_trace by blast
  show ?thesis
  proof (cases "snd (persistSerially sp actions [])")
    case (Some p)
    have "ProcessSerially actions sp = (P, Inl p)"
      using P(1) Some by (simp add: ProcessSerially_def case_prod_beta)
    then show ?thesis
      using P(2) by (intro exI [of _ P] exI [of _ "[]"]) simp
  next
    case None
    obtain T where T: "fst (transmitSerially sp actions P) = P @ T" "list_all isTransmitPhase T"
      using transmitSerially_trace by blast
    have full: "P = persistEffects actions" using P(3) None by simp
    have T': "list_all (\<lambda>e. \<not> isPersistence e \<and> \<not> isCommitApply e) T"
      using T(2) by (simp add: list_all_iff isTransmitPhase_def)
    show ?thesis
    proof (cases "snd (transmitSerially sp actions P)")
      case (Some p)
      have "ProcessSerially actions sp = (P @ T, Inl p)"
        using P(1) None T(1) Some by (simp add: ProcessSerially_def case_prod_beta prod_eq_iff)
      then show ?thesis
        using P(2) T' full by (intro exI [of _ P] exI [of _ T] exI [of _ "[]"]) simp
    next
      case None2: None
      obtain A where A: "fst (applySerially sp actions (P @ T)) = (P @ T) @ A" "list_all isApplyPhase A"
        using applySerially_trace by blast
      have A': "list_all (\<lambda>e. \<not> isPersistence e \<and> \<not> isTransmission e) A"
        using A(2) by (simp add: list_all_iff isApplyPhase_def)
      have "fst (ProcessSerially actions sp) = P @ T @ A"
        using P(1) None T(1) None2 A(1) by (simp add: ProcessSerially_def case_prod_beta)
      then show ?thesis
        using P(2) T' A' full by (intro exI [of _ P] exI [of _ T] exI [of _ A]) simp
    qed
  qed
qed

theorem ProcessSerially_persist_transmit_apply_witness:
  "(\<exists>res. snd (ProcessSerially
       \<lparr>StoreRequests = [\<lparr>sr_RequestAck = RequestAck 1 7 ''H'', sr_RequestData = ''abc''\<rparr>],
        Persist = [5 :: nat],
        Send = [\<lparr>ps_Targets = [0, 1], ps_Msg = ProcMsg_Other (9 :: nat)\<rparr>],
        ForwardRequests = [\<lparr>fw_RequestAck = RequestAck 1 7 ''H'', fw_Targets = [2]\<rparr>],
        Hash = [], Commits = [\<lparr>QEntry = 3 :: nat, Checkpoint = True\<rparr>]\<rparr>
       \<lparr>Store_result = (\<lambda>_ _ _. None), RequestStore_Sync_result = (\<lambda>_. None),
        Append_result = (\<lambda>_ _. None), WAL_Sync_result = (\<lambda>_. None),
        Get_result = (\<lambda>_ _. Inr ''abc''), Snap_result = (\<lambda>_. ''snap''),
        Hasher = concat, Node_Config_ID = 0\<rparr>) = Inr res)
   \<and> (\<exists>P T A. fst (ProcessSerially
       \<lparr>StoreRequests = [\<lparr>sr_RequestAck = RequestAck 1 7 ''H'', sr_RequestData = ''abc''\<rparr>],
        Persist = [5 :: nat],
        Send = [\<lparr>ps_Targets = [0, 1], ps_Msg = ProcMsg_Other (9 :: nat)\<rparr>],
        ForwardRequests = [\<lparr>fw_RequestAck = RequestAck 1 7 ''H'', fw_Targets = [2]\<rparr>],
        Hash = [], Commits = [\<lparr>QEntry = 3 :: nat, Checkpoint = True\<rparr>]\<rparr>
       \<lparr>Store_result = (\<lambda>_ _ _. None), RequestStore_Sync_result = (\<lambda>_. None),
        Append_result = (\<lambda>_ _. None), WAL_Sync_result = (\<lambda>_. None),
        Get_result = (\<lambda>_ _. Inr ''abc''), Snap_result = (\<lambda>_. ''snap''),
        Hasher = concat, Node_Config_ID = 0\<rparr>) = P @ T @ A
     \<and> list_all isPersistence P
     \<and> list_all (\<lambda>e. \<not> isPersistence e \<and> \<not> isCommitApply e) T
     \<and> list_all (\<lambda>e. \<not> isPersistence e \<and> \<not> isTransmission e) A
     \<and> P = [RequestStore_Store (RequestAck 1 7 ''H'') ''abc'', RequestStore_Sync,
            WAL_Append 5, WAL_Sync])"
proof -
  let ?acts = "\<lparr>StoreRequests = [\<lparr>sr_RequestAck = RequestAck 1 7 ''H'', sr_RequestData = ''abc''\<rparr>],
        Persist = [5 :: nat],
        Send = [\<lparr>ps_Targets = [0, 1], ps_Msg = ProcMsg_Other (9 :: nat)\<rparr>],
        ForwardRequests = [\<lparr>fw_RequestAck = RequestAck 1 7 ''H'', fw_Targets = [2]\<rparr>],
        Hash = [], Commits = [\<lparr>QEntry = 3 :: nat, Checkpoint = True\<rparr>]\<rparr>"
  let ?sp = "\<lparr>Store_result = (\<lambda>_ _ _. None), RequestStore_Sync_result = (\<lambda>_. None),
        Append_result = (\<lambda>_ _. None), WAL_Sync_result = (\<lambda>_. None),
        Get_result = (\<lambda>_ _. Inr ''abc''), Snap_result = (\<lambda>_. ''snap''),
        Hasher = concat, Node_Config_ID = 0\<rparr>"
  have ret: "\<exists>res. snd (ProcessSerially ?acts ?sp) = Inr res"
    by (simp add: ProcessSerially_def persistSerially_def transmitSerially_def applySerially_def)
  have pe: "persistEffects ?acts = [RequestStore_Store (RequestAck 1 7 ''H'') ''abc'', RequestStore_Sync,
            WAL_Append 5, WAL_Sync]"
    by (simp add: persistEffects_def)
  from ProcessSerially_persist_transmit_apply [of ?acts ?sp] ret pe
  show ?thesis by auto
qed

text \<open>
  Claim C7 (the failing input). \<open>RequestStore.Store\<close> returns an error and every other
  collaborator call succeeds: \<open>persistSerially\<close> drops the error, and \<open>ProcessSerially\<close>
  goes on to sync and returns its results without a panic.
\<close>

theorem ProcessSerially_drops_Store_error:
  "ProcessSerially
       \<lparr>StoreRequests = [\<lparr>sr_RequestAck = RequestAck 1 7 ''H'', sr_RequestData = ''abc''\<rparr>],
        Persist = ([] :: nat list), Send = ([] :: nat ProcSend list), ForwardRequests = [],
        Hash = [], Commits = ([] :: nat Commit list)\<rparr>
       \<lparr>Store_result = (\<lambda>_ _ _. Some ''disk full''), RequestStore_Sync_result = (\<lambda>_. None),
        Append_result = (\<lambda>_ _. None), WAL_Sync_result = (\<lambda>_. None),
        Get_result = (\<lambda>_ _. Inr ''abc''), Snap_result = (\<lambda>_. ''snap''),
        Hasher = concat, Node_Config_ID = 0\<rparr>
     = ([RequestStore_Store (RequestAck 1 7 ''H'') ''abc'', RequestStore_Sync, WAL_Sync],
        Inr \<lparr>Digests = [], Checkpoints = []\<rparr>)"
  by (simp add: ProcessSerially_def persistSerially_def transmitSerially_def applySerially_def)

section \<open>Properties of one client window\<close>

lemma windowSpan_length:
  "windowSpan lo nxt h cw \<Longrightarrow> length (reqNoList cw) = nxt - lo"
  unfolding windowSpan_def by (metis length_map length_upt)

lemma pushBackReqNo_fields:
  "lowWatermark (snd (pushBackReqNo i s)) = lowWatermark (snd s)"
  "highWatermark (snd (pushBackReqNo i s)) = highWatermark (snd s)"
  "nextReadyMark (snd (pushBackReqNo i s)) = nextReadyMark (snd s)"
  "cw_clientID (snd (pushBackReqNo i s)) = cw_clientID (snd s)"
  "networkConfig (snd (pushBackReqNo i s)) = networkConfig (snd s)"
  "crnFresh (fst (pushBackReqNo i s)) = Suc (crnFresh (fst s))"
  by (cases s; simp add: pushBackReqNo_def)+

lemma pushBackReqNo_old_cells:
  "a < crnFresh (fst s) \<Longrightarrow> crnAt (fst (pushBackReqNo i s)) a = crnAt (fst s) a"
  by (cases s) (simp add: pushBackReqNo_def)

lemma pushBackReqNo_span:
  assumes "windowSpan lo nxt h cw" and "lo \<le> nxt"
  shows "windowSpan lo (Suc nxt) (fst (pushBackReqNo nxt (h, cw))) (snd (pushBackReqNo nxt (h, cw)))"
proof -
  have len: "length (reqNoList cw) = nxt - lo"
    using assms(1) by (rule windowSpan_length)
  have old: "map (\<lambda>a. reqNo (crnAt h a)) (reqNoList cw) = [lo..<nxt]"
    and mp: "\<forall>i < length (reqNoList cw). reqNoMap cw (lo + i) = Some (reqNoList cw ! i)"
    and dm: "dom (reqNoMap cw) = {lo..<nxt}"
    and fr: "\<forall>a \<in> set (reqNoList cw). a < crnFresh h"
    using assms(1) by (simp_all add: windowSpan_def)
  have m1: "map (\<lambda>a. reqNo (if a = crnFresh h then
                \<lparr>clientID = cw_clientID cw, reqNo = nxt, digests = Map.empty,
                 committed = None, strongRequest = None\<rparr> else crnAt h a)) (reqNoList cw)
            = map (\<lambda>a. reqNo (crnAt h a)) (reqNoList cw)"
    using fr by (intro map_cong) auto
  have "map (\<lambda>a. reqNo (crnAt (fst (pushBackReqNo nxt (h, cw))) a))
            (reqNoList (snd (pushBackReqNo nxt (h, cw)))) = [lo..<Suc nxt]"
    using assms(2) old m1 by (simp add: pushBackReqNo_def fun_upd_def)
  moreover have "\<forall>i < length (reqNoList (snd (pushBackReqNo nxt (h, cw)))).
      reqNoMap (snd (pushBackReqNo nxt (h, cw))) (lo + i)
        = Some (reqNoList (snd (pushBackReqNo nxt (h, cw))) ! i)"
    using mp len assms(2) by (auto simp: pushBackReqNo_def nth_append)
  moreover have "dom (reqNoMap (snd (pushBackReqNo nxt (h, cw)))) = {lo..<Suc nxt}"
    using dm assms(2) by (auto simp: pushBackReqNo_def)
  moreover have "\<forall>a \<in> set (reqNoList (snd (pushBackReqNo nxt (h, cw)))).
      a < crnFresh (fst (pushBackReqNo nxt (h, cw)))"
    using fr by (auto simp: pushBackReqNo_def less_Suc_eq)
  ultimately show ?thesis
    unfolding windowSpan_def by blast
qed

lemma fold_pushBackReqNo_span:
  "windowSpan lo nxt (fst s) (snd s) \<Longrightarrow> lo \<le> nxt \<Longrightarrow>
     windowSpan lo (nxt + k) (fst (fold pushBackReqNo [nxt..<nxt + k] s))
                             (snd (fold pushBackReqNo [nxt..<nxt + k] s))"
proof (induction k)
  case 0
  then show ?case by simp
next
  case (Suc k)
  let ?s = "fold pushBackReqNo [nxt..<nxt + k] s"
  have "windowSpan lo (nxt + k) (fst ?s) (snd ?s)"
    using Suc by simp
  then have "windowSpan lo (Suc (nxt + k)) (fst (pushBackReqNo (nxt + k) (fst ?s, snd ?s)))
                (snd (pushBackReqNo (nxt + k) (fst ?s, snd ?s)))"
    using Suc.prems(2) by (intro pushBackReqNo_span) simp_all
  then show ?case by simp
qed

lemma fold_pushBackReqNo_fields:
  "lowWatermark (snd (fold pushBackReqNo xs s)) = lowWatermark (snd s)"
  "highWatermark (snd (fold pushBackReqNo xs s)) = highWatermark (snd s)"
  "nextReadyMark (snd (fold pushBackReqNo xs s)) = nextReadyMark (snd s)"
  "cw_clientID (snd (fold pushBackReqNo xs s)) = cw_clientID (snd s)"
  "networkConfig (snd (fold pushBackReqNo xs s)) = networkConfig (snd s)"
  "crnFresh (fst (fold pushBackReqNo xs s)) = crnFresh (fst s) + length xs"
  by (induction xs arbitrary: s; simp add: pushBackReqNo_fields)+

lemma fold_pushBackReqNo_old_cells:
  "a < crnFresh (fst s) \<Longrightarrow> crnAt (fst (fold pushBackReqNo xs s)) a = crnAt (fst s) a"
  by (induction xs arbitrary: s) (simp_all add: pushBackReqNo_old_cells pushBackReqNo_fields)

lemma wrap64_id: "n < 2 ^ 64 \<Longrightarrow> wrap64 n = n"
  by (simp add: wrap64_def)

lemma wrap64_less: "wrap64 n < 2 ^ 64"
  by (simp add: wrap64_def)

lemma newClientWindow_loop_fold:
  "high < 2 ^ 64 - 1 \<Longrightarrow>
     newClientWindow_loop i high s = Some (fold pushBackReqNo [i..<Suc high] s)"
proof (induction "Suc high - i" arbitrary: i s)
  case 0
  then have "\<not> i \<le> high" by simp
  then show ?case by (simp add: newClientWindow_loop.simps [of i high s])
next
  case (Suc n)
  then have le: "i \<le> high" by simp
  then have w: "wrap64 (i + 1) = Suc i" using Suc.prems by (simp add: wrap64_id)
  have "n = Suc high - Suc i" using Suc.hyps(2) by simp
  from Suc.hyps(1) [OF this Suc.prems, of "pushBackReqNo i s"]
  show ?case
    using le w by (simp add: newClientWindow_loop.simps [of i high s] upt_conv_Cons del: upt_Suc)
qed

lemma newClientWindow_windowOf:
  "high < 2 ^ 64 - 1 \<Longrightarrow>
     newClientWindow h cid low high cfg = Some (windowOf h cid low high cfg)"
  unfolding newClientWindow_def windowOf_def by (rule newClientWindow_loop_fold)

lemma newClientWindow_loop_top:
  "newClientWindow_loop i high s = Some y \<Longrightarrow> \<not> (i < 2 ^ 64 \<and> high = 2 ^ 64 - 1)"
  by (rule newClientWindow_loop.raw_induct
        [where P = "\<lambda>i high s y. \<not> (i < 2 ^ 64 \<and> high = 2 ^ 64 - 1)"])
     (auto simp: wrap64_def split: if_splits)

lemma newClientWindow_top:
  "low < 2 ^ 64 \<Longrightarrow> newClientWindow h cid low (2 ^ 64 - 1) cfg = None"
  unfolding newClientWindow_def
  using newClientWindow_loop_top by (metis option.exhaust)

lemma windowOf_fields:
  "lowWatermark (snd (windowOf h cid low high cfg)) = low"
  "highWatermark (snd (windowOf h cid low high cfg)) = high"
  "nextReadyMark (snd (windowOf h cid low high cfg)) = low"
  "cw_clientID (snd (windowOf h cid low high cfg)) = cid"
  "networkConfig (snd (windowOf h cid low high cfg)) = cfg"
  by (simp_all add: windowOf_def fold_pushBackReqNo_fields)

lemma windowOf_OK:
  assumes "low < 2 ^ 64" and "high < 2 ^ 64"
  shows "windowOK (fst (windowOf h cid low high cfg)) (snd (windowOf h cid low high cfg))"
proof (cases "low \<le> Suc high")
  case True
  let ?cw0 = "\<lparr>cw_clientID = cid, nextReadyMark = low, lowWatermark = low,
            highWatermark = high, reqNoList = [], reqNoMap = Map.empty,
            networkConfig = cfg\<rparr>"
  have "windowSpan low low (fst (h, ?cw0)) (snd (h, ?cw0))"
    by (simp add: windowSpan_def)
  from fold_pushBackReqNo_span [OF this, of "Suc high - low"] True assms
  show ?thesis
    by (simp add: windowOK_def windowOf_fields) (simp add: windowOf_def)
next
  case False
  then show ?thesis
    using assms by (simp add: windowOK_def windowOf_def windowSpan_def)
qed

lemma gcFront_fields_conj:
  "lowWatermark (fst (gcFront h m cw r)) = lowWatermark cw
   \<and> highWatermark (fst (gcFront h m cw r)) = highWatermark cw
   \<and> cw_clientID (fst (gcFront h m cw r)) = cw_clientID cw
   \<and> networkConfig (fst (gcFront h m cw r)) = networkConfig cw"
proof (induction h m cw r rule: gcFront.induct)
  case (1 h maxSeqNo cw removed)
  show ?case
  proof (cases "reqNoList cw")
    case Nil
    then show ?thesis by (simp add: gcFront.simps [of h maxSeqNo cw removed])
  next
    case (Cons a rest)
    show ?thesis
    proof (cases "committed (crnAt h a)")
      case None
      then show ?thesis using Cons by (simp add: gcFront.simps [of h maxSeqNo cw removed])
    next
      case (Some c)
      show ?thesis
      proof (cases "c > maxSeqNo")
        case True
        then show ?thesis using Cons Some by (simp add: gcFront.simps [of h maxSeqNo cw removed])
      next
        case False
        from "1.IH" [OF Cons Some False] show ?thesis
          using Cons Some False by (simp add: gcFront.simps [of h maxSeqNo cw removed])
      qed
    qed
  qed
qed

lemmas gcFront_fields =
  gcFront_fields_conj [THEN conjunct1]
  gcFront_fields_conj [THEN conjunct2, THEN conjunct1]
  gcFront_fields_conj [THEN conjunct2, THEN conjunct2, THEN conjunct1]
  gcFront_fields_conj [THEN conjunct2, THEN conjunct2, THEN conjunct2]

lemma gcFront_count: "r \<le> snd (gcFront h m cw r)"
proof (induction h m cw r rule: gcFront.induct)
  case (1 h maxSeqNo cw removed)
  show ?case
  proof (cases "reqNoList cw")
    case Nil
    then show ?thesis by (simp add: gcFront.simps [of h maxSeqNo cw removed])
  next
    case (Cons a rest)
    show ?thesis
    proof (cases "committed (crnAt h a)")
      case None
      then show ?thesis using Cons by (simp add: gcFront.simps [of h maxSeqNo cw removed])
    next
      case (Some c)
      show ?thesis
      proof (cases "c > maxSeqNo")
        case True
        then show ?thesis using Cons Some by (simp add: gcFront.simps [of h maxSeqNo cw removed])
      next
        case False
        from "1.IH" [OF Cons Some False] show ?thesis
          using Cons Some False by (simp add: gcFront.simps [of h maxSeqNo cw removed])
      qed
    qed
  qed
qed

lemma gcFront_span:
  "windowSpan lo nxt h cw \<Longrightarrow>
     windowSpan (lo + (snd (gcFront h m cw r) - r)) nxt h (fst (gcFront h m cw r))
     \<and> (lo \<le> nxt \<longrightarrow> lo + (snd (gcFront h m cw r) - r) \<le> nxt)"
proof (induction h m cw r arbitrary: lo rule: gcFront.induct)
  case (1 h maxSeqNo cw removed)
  show ?case
  proof (cases "reqNoList cw")
    case Nil
    then show ?thesis using "1.prems" by (simp add: gcFront.simps [of h maxSeqNo cw removed])
  next
    case (Cons a rest)
    show ?thesis
    proof (cases "committed (crnAt h a)")
      case None
      then show ?thesis using "1.prems" Cons by (simp add: gcFront.simps [of h maxSeqNo cw removed])
    next
      case (Some c)
      show ?thesis
      proof (cases "c > maxSeqNo")
        case True
        then show ?thesis using "1.prems" Cons Some by (simp add: gcFront.simps [of h maxSeqNo cw removed])
      next
        case False
        let ?cw' = "cw\<lparr>nextReadyMark :=
                            (if reqNo (crnAt h a) \<ge> nextReadyMark cw
                             then reqNo (crnAt h a) else nextReadyMark cw),
                          reqNoList := rest,
                          reqNoMap := (reqNoMap cw)(reqNo (crnAt h a) := None)\<rparr>"
        have eq: "gcFront h maxSeqNo cw removed = gcFront h maxSeqNo ?cw' (removed + 1)"
          using Cons Some False by (simp add: gcFront.simps [of h maxSeqNo cw removed])
        have old: "map (\<lambda>a. reqNo (crnAt h a)) (reqNoList cw) = [lo..<nxt]"
          and mp: "\<forall>i < length (reqNoList cw). reqNoMap cw (lo + i) = Some (reqNoList cw ! i)"
          and dm: "dom (reqNoMap cw) = {lo..<nxt}"
          and fr: "\<forall>a \<in> set (reqNoList cw). a < crnFresh h"
          using "1.prems" by (simp_all add: windowSpan_def)
        have lt: "lo < nxt" using old Cons by (cases "lo < nxt") auto
        have hd: "reqNo (crnAt h a) = lo" and tl: "map (\<lambda>a. reqNo (crnAt h a)) rest = [Suc lo..<nxt]"
          using old Cons lt by (simp_all add: upt_conv_Cons)
        have span': "windowSpan (Suc lo) nxt h ?cw'"
          unfolding windowSpan_def
        proof (intro conjI)
          show "map (\<lambda>a. reqNo (crnAt h a)) (reqNoList ?cw') = [Suc lo..<nxt]"
            using tl by simp
          show "\<forall>i<length (reqNoList ?cw'). reqNoMap ?cw' (Suc lo + i) = Some (reqNoList ?cw' ! i)"
          proof (intro allI impI)
            fix i assume "i < length (reqNoList ?cw')"
            then have "Suc i < length (reqNoList cw)" using Cons by simp
            with mp have "reqNoMap cw (lo + Suc i) = Some (reqNoList cw ! Suc i)" by blast
            then show "reqNoMap ?cw' (Suc lo + i) = Some (reqNoList ?cw' ! i)"
              using Cons hd by simp
          qed
          show "dom (reqNoMap ?cw') = {Suc lo..<nxt}"
            using dm hd by auto
          show "\<forall>a\<in>set (reqNoList ?cw'). a < crnFresh h"
            using fr Cons by simp
        qed
        have cnt: "removed + 1 \<le> snd (gcFront h maxSeqNo ?cw' (removed + 1))"
          by (rule gcFront_count)
        from "1.IH" [OF Cons Some False span']
        have IH: "windowSpan (Suc lo + (snd (gcFront h maxSeqNo ?cw' (removed + 1)) - (removed + 1))) nxt h
                    (fst (gcFront h maxSeqNo ?cw' (removed + 1)))"
          "Suc lo \<le> nxt \<longrightarrow> Suc lo + (snd (gcFront h maxSeqNo ?cw' (removed + 1)) - (removed + 1)) \<le> nxt"
          by simp_all
        have idx: "Suc lo + (snd (gcFront h maxSeqNo ?cw' (removed + 1)) - (removed + 1))
                     = lo + (snd (gcFront h maxSeqNo ?cw' (removed + 1)) - removed)"
          using cnt by simp
        show ?thesis
          using IH lt unfolding eq idx by simp
      qed
    qed
  qed
qed

lemma fold_shift:
  assumes "c + r < 2 ^ 64"
  shows "fold (\<lambda>i. pushBackReqNo (wrap64 (i + c))) [1..<Suc r] s
           = fold pushBackReqNo [Suc c..<Suc c + r] s"
proof -
  have "map (\<lambda>i. i + c) [1..<Suc r] = [Suc c..<Suc c + r]"
    by (induction r) simp_all
  moreover have "map (\<lambda>i. wrap64 (i + c)) [1..<Suc r] = map (\<lambda>i. i + c) [1..<Suc r]"
    using assms by (intro map_cong) (auto simp: wrap64_id)
  ultimately have "fold pushBackReqNo [Suc c..<Suc c + r] s
      = fold pushBackReqNo (map (\<lambda>i. wrap64 (i + c)) [1..<Suc r]) s"
    by simp
  also have "\<dots> = fold (\<lambda>i. pushBackReqNo (wrap64 (i + c))) [1..<Suc r] s"
    by (simp add: fold_map comp_def)
  finally show ?thesis by simp
qed

lemma windowSpan_watermarks:
  "windowSpan lo nxt h (cw\<lparr>lowWatermark := l, highWatermark := u\<rparr>) = windowSpan lo nxt h cw"
  by (simp add: windowSpan_def)

lemma cw_garbageCollect_OK:
  assumes "windowOK h cw" and "lowWatermark cw \<le> Suc (highWatermark cw)"
    and "highWatermark cw + removedBy h cw m < 2 ^ 64"
  shows "windowOK (fst (cw_garbageCollect h cw m)) (snd (cw_garbageCollect h cw m))"
    and "lowWatermark (snd (cw_garbageCollect h cw m)) = lowWatermark cw + removedBy h cw m"
    and "highWatermark (snd (cw_garbageCollect h cw m)) = highWatermark cw + removedBy h cw m"
proof -
  let ?g = "gcFront h m cw 0"
  let ?r = "snd ?g"
  let ?s = "fold pushBackReqNo [Suc (highWatermark cw)..<Suc (highWatermark cw) + ?r] (h, fst ?g)"
  have hr: "highWatermark cw + ?r < 2 ^ 64" using assms(3) by (simp add: removedBy_def)
  from gcFront_span [of "lowWatermark cw" "Suc (highWatermark cw)" h cw m 0] assms(1,2)
  have sp: "windowSpan (lowWatermark cw + ?r) (Suc (highWatermark cw)) h (fst ?g)"
    and le: "lowWatermark cw + ?r \<le> Suc (highWatermark cw)"
    by (simp_all add: windowOK_def)
  have lr: "lowWatermark cw + ?r < 2 ^ 64"
  proof (cases "?r = 0")
    case True
    then show ?thesis using assms(1) by (simp add: windowOK_def)
  next
    case False
    then have "lowWatermark cw + ?r \<le> highWatermark cw + ?r" using le by simp
    with hr show ?thesis by simp
  qed
  have sh: "fold (\<lambda>i. pushBackReqNo (wrap64 (i + highWatermark cw))) [1..<Suc ?r] (h, fst ?g) = ?s"
    using hr by (rule fold_shift [OF _])
  have gc: "cw_garbageCollect h cw m
      = (fst ?s, (snd ?s)\<lparr>lowWatermark := lowWatermark cw + ?r,
                          highWatermark := highWatermark cw + ?r\<rparr>)"
    unfolding cw_garbageCollect_def
    by (simp only: case_prod_beta gcFront_fields fst_conv snd_conv sh
          fold_pushBackReqNo_fields wrap64_id [OF hr] wrap64_id [OF lr])
  from fold_pushBackReqNo_span [of "lowWatermark cw + ?r" "Suc (highWatermark cw)" "(h, fst ?g)" ?r] sp le
  have "windowSpan (lowWatermark cw + ?r) (Suc (highWatermark cw) + ?r) (fst ?s) (snd ?s)"
    by simp
  then show "windowOK (fst (cw_garbageCollect h cw m)) (snd (cw_garbageCollect h cw m))"
    unfolding gc using hr lr by (simp add: windowOK_def windowSpan_watermarks)
  show "lowWatermark (snd (cw_garbageCollect h cw m)) = lowWatermark cw + removedBy h cw m"
    unfolding gc by (simp add: removedBy_def)
  show "highWatermark (snd (cw_garbageCollect h cw m)) = highWatermark cw + removedBy h cw m"
    unfolding gc by (simp add: removedBy_def)
qed

lemma cw_garbageCollect_windowOK:
  assumes "windowOK h cw" and "highWatermark cw + removedBy h cw m < 2 ^ 64"
  shows "windowOK (fst (cw_garbageCollect h cw m)) (snd (cw_garbageCollect h cw m))"
proof (cases "lowWatermark cw \<le> Suc (highWatermark cw)")
  case True
  with assms show ?thesis by (intro cw_garbageCollect_OK(1))
next
  case False
  then have "reqNoList cw = []"
    using assms by (simp add: windowOK_def windowSpan_def)
  then have "gcFront h m cw 0 = (cw, 0)"
    by (simp add: gcFront.simps [of h m cw 0])
  moreover have "wrap64 (lowWatermark cw) = lowWatermark cw" "wrap64 (highWatermark cw) = highWatermark cw"
    using assms(1) by (simp_all add: windowOK_def wrap64_id)
  ultimately have "cw_garbageCollect h cw m = (h, cw)"
    by (simp add: cw_garbageCollect_def)
  then show ?thesis using assms by simp
qed

lemma windowSpan_store_cong:
  assumes "\<And>a. reqNo (crnAt h' a) = reqNo (crnAt h a)" and "crnFresh h' = crnFresh h"
  shows "windowSpan lo nxt h' cw = windowSpan lo nxt h cw"
  using assms by (simp add: windowSpan_def)

lemma cw_ack_store:
  assumes "cw_ack h cw source rn d = Inr (h', a, nc)"
  shows "reqNo (crnAt h' b) = reqNo (crnAt h b)" and "crnFresh h' = crnFresh h"
    and "committed (crnAt h' b) = committed (crnAt h b)"
    and "clientID (crnAt h' b) = clientID (crnAt h b)"
    and "reqNoMap cw rn = Some a"
  using assms
  by (auto simp: cw_ack_def Let_def split: if_splits option.splits)

lemma cw_allocate_store:
  assumes "cw_allocate h cw rq d = Inr (h', a, nc)"
  shows "reqNo (crnAt h' b) = reqNo (crnAt h b)" and "crnFresh h' = crnFresh h"
    and "committed (crnAt h' b) = committed (crnAt h b)"
    and "clientID (crnAt h' b) = clientID (crnAt h b)"
    and "reqNoMap cw (req_ReqNo rq) = Some a"
  using assms
  by (auto simp: cw_allocate_def Let_def split: if_splits option.splits)

lemma windowOK_span:
  "windowOK h cw \<Longrightarrow> windowSpan (lowWatermark cw) (Suc (highWatermark cw)) h cw"
  by (simp add: windowOK_def)

lemma windowOK_dom:
  "windowOK h cw \<Longrightarrow> dom (reqNoMap cw) = {lowWatermark cw..highWatermark cw}"
  by (auto simp: windowOK_def windowSpan_def)

lemma windowOK_lookup:
  assumes "windowOK h cw" and "inWatermarks cw rn"
  shows "\<exists>a. reqNoMap cw rn = Some a \<and> a < crnFresh h \<and> reqNo (crnAt h a) = rn"
proof -
  have len: "length (reqNoList cw) = Suc (highWatermark cw) - lowWatermark cw"
    using windowOK_span [OF assms(1)] by (rule windowSpan_length)
  let ?i = "rn - lowWatermark cw"
  have i: "?i < length (reqNoList cw)" "lowWatermark cw + ?i = rn"
    using assms(2) len by (auto simp: inWatermarks_def)
  have mp: "reqNoMap cw (lowWatermark cw + ?i) = Some (reqNoList cw ! ?i)"
    using assms(1) i(1) by (simp add: windowOK_def windowSpan_def)
  have eq: "map (\<lambda>a. reqNo (crnAt h a)) (reqNoList cw) = [lowWatermark cw..<Suc (highWatermark cw)]"
    using assms(1) by (simp add: windowOK_def windowSpan_def del: upt_Suc)
  have "lowWatermark cw + ?i < Suc (highWatermark cw)"
    using assms(2) by (auto simp: inWatermarks_def)
  then have "[lowWatermark cw..<Suc (highWatermark cw)] ! ?i = lowWatermark cw + ?i"
    by (rule nth_upt)
  moreover have "map (\<lambda>a. reqNo (crnAt h a)) (reqNoList cw) ! ?i = reqNo (crnAt h (reqNoList cw ! ?i))"
    using i(1) by (rule nth_map)
  ultimately have rq: "reqNo (crnAt h (reqNoList cw ! ?i)) = rn"
    using eq i(2) by simp
  have "reqNoList cw ! ?i \<in> set (reqNoList cw)" using i(1) by simp
  then have "reqNoList cw ! ?i < crnFresh h"
    using assms(1) by (simp add: windowOK_def windowSpan_def)
  then show ?thesis using mp rq i(2) by auto
qed

text \<open>
  Claim C9, as amended. Below the top of the \<open>uint64\<close> range the domain of \<open>reqNoMap\<close> is
  the interval of the watermarks. \<open>newClientWindow\<close> with a high watermark below
  \<open>2^64 - 1\<close> returns, and the window it returns is \<open>windowOK\<close>; a window that is \<open>windowOK\<close>
  has as the domain of \<open>reqNoMap\<close> exactly the interval from \<open>lowWatermark\<close> to
  \<open>highWatermark\<close>; \<open>garbageCollect\<close> preserves \<open>windowOK\<close> when the high watermark plus the
  number of entries it removes is below \<open>2^64\<close>; \<open>ack\<close> and \<open>allocate\<close> preserve \<open>windowOK\<close>;
  and for a request number within the watermarks \<open>ack\<close>, \<open>allocate\<close> and \<open>request\<close> return,
  so none of them reaches its panic for a request number missing from \<open>reqNoMap\<close>.
\<close>

theorem reqNoMap_domain_invariant:
  "(low < 2 ^ 64 \<and> high < 2 ^ 64 - 1 \<longrightarrow>
      (\<exists>h1 cw1. newClientWindow h0 cid low high cfg = Some (h1, cw1) \<and> windowOK h1 cw1
                \<and> lowWatermark cw1 = low \<and> highWatermark cw1 = high))
   \<and> (windowOK h cw \<longrightarrow>
        dom (reqNoMap cw) = {lowWatermark cw..highWatermark cw}
        \<and> (highWatermark cw + removedBy h cw m < 2 ^ 64 \<longrightarrow>
              windowOK (fst (cw_garbageCollect h cw m)) (snd (cw_garbageCollect h cw m)))
        \<and> (\<forall>source rn d. inWatermarks cw rn \<longrightarrow>
              (\<exists>h' a nc. cw_ack h cw source rn d = Inr (h', a, nc) \<and> windowOK h' cw))
        \<and> (\<forall>rq d. inWatermarks cw (req_ReqNo rq) \<longrightarrow>
              (\<exists>h' a nc. cw_allocate h cw rq d = Inr (h', a, nc) \<and> windowOK h' cw))
        \<and> (\<forall>rn. inWatermarks cw rn \<longrightarrow> (\<exists>a. request cw rn = Inr a)))"
proof (intro conjI impI allI)
  assume b: "low < 2 ^ 64 \<and> high < 2 ^ 64 - 1"
  then have "newClientWindow h0 cid low high cfg = Some (windowOf h0 cid low high cfg)"
    by (simp add: newClientWindow_windowOf)
  moreover have "windowOK (fst (windowOf h0 cid low high cfg)) (snd (windowOf h0 cid low high cfg))"
    using b by (intro windowOf_OK) simp_all
  ultimately show "\<exists>h1 cw1. newClientWindow h0 cid low high cfg = Some (h1, cw1) \<and> windowOK h1 cw1
                \<and> lowWatermark cw1 = low \<and> highWatermark cw1 = high"
    by (intro exI [of _ "fst (windowOf h0 cid low high cfg)"]
              exI [of _ "snd (windowOf h0 cid low high cfg)"])
       (simp add: windowOf_fields)
next
  assume "windowOK h cw"
  then show "dom (reqNoMap cw) = {lowWatermark cw..highWatermark cw}"
    by (rule windowOK_dom)
next
  assume "windowOK h cw" and "highWatermark cw + removedBy h cw m < 2 ^ 64"
  then show "windowOK (fst (cw_garbageCollect h cw m)) (snd (cw_garbageCollect h cw m))"
    by (rule cw_garbageCollect_windowOK)
next
  fix source rn d
  assume ok: "windowOK h cw" and inw: "inWatermarks cw rn"
  from windowOK_lookup [OF ok inw] obtain a where a: "reqNoMap cw rn = Some a" by blast
  obtain h' nc where r: "cw_ack h cw source rn d = Inr (h', a, nc)"
    using a inw by (auto simp: cw_ack_def inWatermarks_def Let_def)
  have "windowOK h' cw"
    using ok cw_ack_store(1,2) [OF r]
    by (simp add: windowOK_def windowSpan_store_cong [of h' h])
  with r show "\<exists>h' a nc. cw_ack h cw source rn d = Inr (h', a, nc) \<and> windowOK h' cw"
    by blast
next
  fix rq d
  assume ok: "windowOK h cw" and inw: "inWatermarks cw (req_ReqNo rq)"
  from windowOK_lookup [OF ok inw] obtain a where a: "reqNoMap cw (req_ReqNo rq) = Some a" by blast
  obtain h' nc where r: "cw_allocate h cw rq d = Inr (h', a, nc)"
    using a inw by (auto simp: cw_allocate_def inWatermarks_def Let_def)
  have "windowOK h' cw"
    using ok cw_allocate_store(1,2) [OF r]
    by (simp add: windowOK_def windowSpan_store_cong [of h' h])
  with r show "\<exists>h' a nc. cw_allocate h cw rq d = Inr (h', a, nc) \<and> windowOK h' cw"
    by blast
next
  fix rn
  assume ok: "windowOK h cw" and inw: "inWatermarks cw rn"
  from windowOK_lookup [OF ok inw] obtain a where a: "reqNoMap cw rn = Some a" by blast
  then show "\<exists>a. request cw rn = Inr a"
    using inw by (auto simp: request_def inWatermarks_def)
qed

theorem reqNoMap_domain_invariant_witness:
  "(0::nat) < 2 ^ 64 \<and> (2::nat) < 2 ^ 64 - 1
   \<and> (case newClientWindow (crns (initialClientWindows 0)) 7 0 2 \<lparr>Nodes = [0, 1, 2, 3]\<rparr> of
        None \<Rightarrow> False
      | Some (h, cw) \<Rightarrow>
          windowOK h cw \<and> dom (reqNoMap cw) = {0..2}
          \<and> inWatermarks cw 2
          \<and> (\<exists>h' a nc. cw_ack h cw 3 2 ''H'' = Inr (h', a, nc))
          \<and> (\<exists>h' a nc. cw_allocate h cw (Request 7 2 ''abc'') ''H'' = Inr (h', a, nc))
          \<and> (\<exists>a. request cw 2 = Inr a)
          \<and> (case cw_garbageCollect
                    (h\<lparr>crnAt := (crnAt h)(1 := (crnAt h 1)\<lparr>committed := Some 1\<rparr>)\<rparr>) cw 1 of
                (h', cw') \<Rightarrow>
                  windowOK (h\<lparr>crnAt := (crnAt h)(1 := (crnAt h 1)\<lparr>committed := Some 1\<rparr>)\<rparr>) cw
                  \<and> removedBy (h\<lparr>crnAt := (crnAt h)(1 := (crnAt h 1)\<lparr>committed := Some 1\<rparr>)\<rparr>) cw 1 = 1
                  \<and> windowOK h' cw'
                  \<and> lowWatermark cw' = 1 \<and> highWatermark cw' = 3
                  \<and> dom (reqNoMap cw') = {1..3}))"
proof -
  define cfg where "cfg = \<lparr>Nodes = [0, 1, 2, 3::nat]\<rparr>"
  define h0 where "h0 = crns (initialClientWindows 0)"
  define h where "h = fst (windowOf h0 7 0 2 cfg)"
  define cw where "cw = snd (windowOf h0 7 0 2 cfg)"
  define hC where "hC = h\<lparr>crnAt := (crnAt h)(1 := (crnAt h 1)\<lparr>committed := Some 1\<rparr>)\<rparr>"
  define g where "g = cw_garbageCollect hC cw 1"
  note defs = h_def cw_def hC_def h0_def windowOf_def pushBackReqNo_def initialClientWindows_def
    upt_rec
  have b: "(0::nat) < 2 ^ 64 \<and> (2::nat) < 2 ^ 64 - 1" by simp
  from reqNoMap_domain_invariant [of 0 2 h0 7 cfg h cw 0] b
  obtain h1 cw1 where n: "newClientWindow h0 7 0 2 cfg = Some (h1, cw1)" and ok1: "windowOK h1 cw1"
    by blast
  have n': "newClientWindow h0 7 0 2 cfg = Some (h, cw)"
    by (simp add: newClientWindow_windowOf h_def cw_def)
  with n ok1 have ok: "windowOK h cw" by simp
  have lh: "lowWatermark cw = 0" "highWatermark cw = 2"
    by (simp_all add: cw_def windowOf_fields)
  have inw: "inWatermarks cw 2" by (simp add: inWatermarks_def lh)
  have inw': "inWatermarks cw (req_ReqNo (Request 7 2 ''abc''))" using inw by simp
  from reqNoMap_domain_invariant [of 0 2 h0 7 cfg h cw 0] ok inw inw' lh
  have dm: "dom (reqNoMap cw) = {0..2}"
    and ak: "\<exists>h' a nc. cw_ack h cw 3 2 ''H'' = Inr (h', a, nc)"
    and al: "\<exists>h' a nc. cw_allocate h cw (Request 7 2 ''abc'') ''H'' = Inr (h', a, nc)"
    and rq: "\<exists>a. request cw 2 = Inr a"
    by (simp, blast, blast, blast)
  have okC: "windowOK hC cw"
    using ok windowSpan_store_cong [of hC h]
    by (simp add: windowOK_def hC_def)
  have rm: "removedBy hC cw 1 = 1"
    by (simp add: removedBy_def gcFront.simps defs)
  have bd: "highWatermark cw + removedBy hC cw 1 < 2 ^ 64"
    using rm lh by simp
  from reqNoMap_domain_invariant [of 0 2 h0 7 cfg hC cw 1] okC bd
  have okg: "windowOK (fst g) (snd g)" by (simp add: g_def)
  have lo: "lowWatermark cw \<le> Suc (highWatermark cw)" by (simp add: lh)
  have wm: "lowWatermark (snd g) = 1" "highWatermark (snd g) = 3"
    using cw_garbageCollect_OK(2,3) [OF okC lo bd] rm lh by (simp_all add: g_def)
  from reqNoMap_domain_invariant [of 0 2 h0 7 cfg "fst g" "snd g" 0] okg wm
  have dg: "dom (reqNoMap (snd g)) = {1..3}" by simp
  have "case newClientWindow h0 7 0 2 cfg of
        None \<Rightarrow> False
      | Some (h, cw) \<Rightarrow>
          windowOK h cw \<and> dom (reqNoMap cw) = {0..2}
          \<and> inWatermarks cw 2
          \<and> (\<exists>h' a nc. cw_ack h cw 3 2 ''H'' = Inr (h', a, nc))
          \<and> (\<exists>h' a nc. cw_allocate h cw (Request 7 2 ''abc'') ''H'' = Inr (h', a, nc))
          \<and> (\<exists>a. request cw 2 = Inr a)
          \<and> (case cw_garbageCollect
                    (h\<lparr>crnAt := (crnAt h)(1 := (crnAt h 1)\<lparr>committed := Some 1\<rparr>)\<rparr>) cw 1 of
                (h', cw') \<Rightarrow>
                  windowOK (h\<lparr>crnAt := (crnAt h)(1 := (crnAt h 1)\<lparr>committed := Some 1\<rparr>)\<rparr>) cw
                  \<and> removedBy (h\<lparr>crnAt := (crnAt h)(1 := (crnAt h 1)\<lparr>committed := Some 1\<rparr>)\<rparr>) cw 1 = 1
                  \<and> windowOK h' cw'
                  \<and> lowWatermark cw' = 1 \<and> highWatermark cw' = 3
                  \<and> dom (reqNoMap cw') = {1..3})"
    unfolding n'
    using ok dm inw ak al rq okC [unfolded hC_def] rm [unfolded hC_def]
      okg [unfolded g_def hC_def] wm [unfolded g_def hC_def] dg [unfolded g_def hC_def]
    by (simp only: option.case prod.case case_prod_beta fst_conv snd_conv)
  then show ?thesis
    using b unfolding h0_def cfg_def by blast
qed

text \<open>
  Claim C9 as stated fails at the top of the \<open>uint64\<close> range. \<open>newClientWindow\<close> with the
  high watermark \<open>2^64 - 1\<close> does not return. And for the window of the request numbers
  \<open>2^64 - 4\<close> to \<open>2^64 - 2\<close> whose first two requests are committed, \<open>garbageCollect\<close>
  removes these two and adds entries for \<open>2^64 - 1\<close> and, wrapped around, for 0; the
  watermarks become \<open>2^64 - 2\<close> and 0, so no request number is within them, while
  \<open>reqNoMap\<close> holds three, \<open>2^64 - 1\<close> among them.
\<close>

theorem reqNoMap_domain_wrap_counterexample:
  "newClientWindow (crns (initialClientWindows 0)) 7 0 (2 ^ 64 - 1) \<lparr>Nodes = [0, 1, 2, 3]\<rparr> = None
   \<and> (case newClientWindow (crns (initialClientWindows 0)) 7 (2 ^ 64 - 4) (2 ^ 64 - 2)
             \<lparr>Nodes = [0, 1, 2, 3]\<rparr> of
        None \<Rightarrow> False
      | Some (h, cw) \<Rightarrow>
          (lowWatermark cw, highWatermark cw) = (2 ^ 64 - 4, 2 ^ 64 - 2)
          \<and> map (reqNoMap cw) [2 ^ 64 - 4, 2 ^ 64 - 3, 2 ^ 64 - 2] = [Some 1, Some 2, Some 3]
          \<and> (case cw_garbageCollect
                    (h\<lparr>crnAt := (crnAt h)(1 := (crnAt h 1)\<lparr>committed := Some 1\<rparr>,
                                           2 := (crnAt h 2)\<lparr>committed := Some 2\<rparr>)\<rparr>) cw 2 of
                (h', cw') \<Rightarrow>
                  (lowWatermark cw', highWatermark cw') = (2 ^ 64 - 2, 0)
                  \<and> map (reqNoMap cw') [2 ^ 64 - 2, 2 ^ 64 - 1, 0] = [Some 3, Some 4, Some 5]
                  \<and> 2 ^ 64 - 1 \<in> dom (reqNoMap cw')
                  \<and> 2 ^ 64 - 1 \<notin> {lowWatermark cw'..highWatermark cw'}
                  \<and> \<not> inWatermarks cw' (2 ^ 64 - 1)))"
proof -
  have top: "newClientWindow (crns (initialClientWindows 0)) 7 0 (2 ^ 64 - 1) \<lparr>Nodes = [0, 1, 2, 3]\<rparr> = None"
    by (rule newClientWindow_top) simp
  have w: "newClientWindow (crns (initialClientWindows 0)) 7 (2 ^ 64 - 4) (2 ^ 64 - 2) \<lparr>Nodes = [0, 1, 2, 3]\<rparr>
      = Some (windowOf (crns (initialClientWindows 0)) 7 (2 ^ 64 - 4) (2 ^ 64 - 2) \<lparr>Nodes = [0, 1, 2, 3]\<rparr>)"
    by (rule newClientWindow_windowOf) simp
  have "case Some (windowOf (crns (initialClientWindows 0)) 7 (2 ^ 64 - 4) (2 ^ 64 - 2)
                     \<lparr>Nodes = [0, 1, 2, 3]\<rparr>) of
        None \<Rightarrow> False
      | Some (h, cw) \<Rightarrow>
          (lowWatermark cw, highWatermark cw) = (2 ^ 64 - 4, 2 ^ 64 - 2)
          \<and> map (reqNoMap cw) [2 ^ 64 - 4, 2 ^ 64 - 3, 2 ^ 64 - 2] = [Some 1, Some 2, Some 3]
          \<and> (case cw_garbageCollect
                    (h\<lparr>crnAt := (crnAt h)(1 := (crnAt h 1)\<lparr>committed := Some 1\<rparr>,
                                           2 := (crnAt h 2)\<lparr>committed := Some 2\<rparr>)\<rparr>) cw 2 of
                (h', cw') \<Rightarrow>
                  (lowWatermark cw', highWatermark cw') = (2 ^ 64 - 2, 0)
                  \<and> map (reqNoMap cw') [2 ^ 64 - 2, 2 ^ 64 - 1, 0] = [Some 3, Some 4, Some 5]
                  \<and> 2 ^ 64 - 1 \<in> dom (reqNoMap cw')
                  \<and> 2 ^ 64 - 1 \<notin> {lowWatermark cw'..highWatermark cw'}
                  \<and> \<not> inWatermarks cw' (2 ^ 64 - 1))"
    by (simp add: windowOf_def pushBackReqNo_def initialClientWindows_def upt_rec
          cw_garbageCollect_def gcFront.simps wrap64_def inWatermarks_def domIff)
  with top show ?thesis
    unfolding w by (rule conjI)
qed

text \<open>
  Claim C1 (the failing input). A window for the request numbers 0 to 2 whose request 0
  has been committed at sequence number 1 without having been released as ready (the
  mark is still 0). \<open>garbageCollect(1)\<close> removes request 0 and moves the watermarks to 1
  and 3, but it assigns the removed request number itself to \<open>nextReadyMark\<close>: the mark
  stays at 0, below the new low watermark, at a request number that \<open>reqNoMap\<close> no longer
  holds.
\<close>

theorem cw_garbageCollect_mark_below_low:
  "(case newClientWindow (crns (initialClientWindows 0)) 7 0 2 \<lparr>Nodes = [0, 1, 2, 3]\<rparr> of
      None \<Rightarrow> False
    | Some (h, cw) \<Rightarrow>
   (case cw_garbageCollect
           (h\<lparr>crnAt := (crnAt h)(1 := (crnAt h 1)\<lparr>committed := Some 1\<rparr>)\<rparr>) cw 1 of
      (h', cw') \<Rightarrow>
        reqNoMap cw 0 = Some 1
        \<and> (nextReadyMark cw, lowWatermark cw, highWatermark cw) = (0, 0, 2)
        \<and> (nextReadyMark cw', lowWatermark cw', highWatermark cw') = (0, 1, 3)
        \<and> reqNoMap cw' (nextReadyMark cw') = None))"
  by (simp add: newClientWindow_windowOf windowOf_def pushBackReqNo_def initialClientWindows_def
        upt_rec cw_garbageCollect_def gcFront.simps wrap64_def)

text \<open>
  What a call of \<open>clientWindow.ack\<close> does for a request number within the watermarks that
  \<open>reqNoMap\<close> holds: it returns, having added the source to the agreement set of the digest
  and left the data alone. The request it returns as newly correct is the data of the
  digest when the size of the agreement set after the call equals \<open>someCorrectQuorum\<close>, and
  nil otherwise; \<open>strongRequest\<close> becomes this digest's request when the size after the call
  equals \<open>intersectionQuorum\<close>, and is left as it was otherwise.
\<close>

lemma cw_ack_result:
  assumes "lowWatermark cw \<le> rn" and "rn \<le> highWatermark cw" and "reqNoMap cw rn = Some a"
  shows "\<exists>h'. cw_ack h cw source rn d =
           Inr (h', a,
                if card (insert source (ackSet h a d)) = someCorrectQuorum (networkConfig cw)
                then ackData h a d else None)
         \<and> ackSet h' a d = insert source (ackSet h a d)
         \<and> ackData h' a d = ackData h a d
         \<and> strongRequest (crnAt h' a) =
             (if card (insert source (ackSet h a d)) = intersectionQuorum (networkConfig cw)
              then Some d else strongRequest (crnAt h a))"
  using assms
  by (auto simp: cw_ack_def ackSet_def ackData_def Let_def split: option.splits)

text \<open>
  Claim C2 (the failing input). Four nodes, so \<open>f = 1\<close> and \<open>someCorrectQuorum = 2\<close>. The
  request 0 of client 7 is allocated with digest \<open>H\<close>, so its data is known, and then
  acknowledged by node 1, by node 2 and by node 2 again. The acknowledgement by node 2
  brings the agreement set to \<open>{1, 2}\<close>, of size \<open>f+1\<close>: the request is newly correct and
  is put on \<open>correctList\<close>. The repeated acknowledgement by node 2 leaves the set at
  \<open>{1, 2}\<close>; \<open>clientWindow.ack\<close> compares the size after the insertion with the quorum,
  finds 2 again and returns the request as newly correct once more, and \<open>clientWindows.ack\<close>
  puts it on \<open>correctList\<close> a second time.
\<close>

theorem cws_ack_repeated_newly_correct:
  "(case newClientWindow (crns (initialClientWindows 0)) 7 0 2 \<lparr>Nodes = [0, 1, 2, 3]\<rparr> of
      None \<Rightarrow> False
    | Some (h0, cw) \<Rightarrow>
   (case cws_allocate (insert_window ((initialClientWindows 0)\<lparr>crns := h0\<rparr>) 7 cw)
           (Request 7 0 ''abc'') ''H'' of
      Some (Inr cws1) \<Rightarrow>
   (case cws_ack cws1 1 (RequestAck 7 0 ''H'') of
      Some (Inr (cws2, a2, d2)) \<Rightarrow>
   (case cws_ack cws2 2 (RequestAck 7 0 ''H'') of
      Some (Inr (cws3, a3, d3)) \<Rightarrow>
   (case cws_ack cws3 2 (RequestAck 7 0 ''H'') of
      Some (Inr (cws4, a4, d4)) \<Rightarrow>
        someCorrectQuorum (networkConfig cw) = 2
        \<and> correctList cws1 = [] \<and> ackSet (crns cws1) a4 ''H'' = {}
        \<and> correctList cws2 = [] \<and> ackSet (crns cws2) a4 ''H'' = {1}
        \<and> correctList cws3 = [ForwardRequest (Request 7 0 ''abc'') ''H'']
        \<and> ackSet (crns cws3) a4 ''H'' = {1, 2}
        \<and> (case cw_ack (crns cws3) cw 2 0 ''H'' of
              Inl p \<Rightarrow> False
            | Inr (h4, b4, newlyCorrectReq) \<Rightarrow> newlyCorrectReq = Some (Request 7 0 ''abc''))
        \<and> ackSet (crns cws4) a4 ''H'' = {1, 2}
        \<and> correctList cws4 = [ForwardRequest (Request 7 0 ''abc'') ''H'',
                                ForwardRequest (Request 7 0 ''abc'') ''H'']
    | _ \<Rightarrow> False)
    | _ \<Rightarrow> False)
    | _ \<Rightarrow> False)
    | _ \<Rightarrow> False))"
  by (simp add: newClientWindow_windowOf windowOf_def pushBackReqNo_def initialClientWindows_def
        upt_rec insert_window_def cws_allocate_def cws_ack_def checkReady_def
        cw_allocate_def cw_ack_def Let_def someCorrectQuorum_def intersectionQuorum_def
        faults_def ackSet_def insert_commute)

section \<open>Properties of the client windows\<close>

text \<open>
  Claim C4, as amended. \<open>filter\<close> classifies a \<open>RequestAck\<close> and a \<open>ForwardRequest\<close> by the
  watermarks of the client; a \<open>FetchRequest\<close> is always \<open>current\<close>.
\<close>

theorem filter_msg_classes:
  "filter_msg cws (Msg_RequestAck ack) = Inr (watermarkClass cws (ack_ClientId ack) (ack_ReqNo ack))
   \<and> filter_msg cws (Msg_ForwardRequest fwd)
       = Inr (watermarkClass cws (req_ClientId (fwd_Request fwd)) (req_ReqNo (fwd_Request fwd)))
   \<and> filter_msg cws (Msg_FetchRequest fr) = Inr current"
  by (simp add: filter_msg_def watermarkClass_def split: option.splits)

text \<open>
  Claim C4 as stated fails for a \<open>FetchRequest\<close>: for a client without a window the
  classification by watermarks is \<open>future\<close>, and \<open>filter\<close> answers \<open>current\<close>.
\<close>

theorem filter_msg_FetchRequest_counterexample:
  "filter_msg (initialClientWindows 0) (Msg_FetchRequest (FetchRequest 7 5 ''H''))
     \<noteq> Inr (watermarkClass (initialClientWindows 0) 7 5)"
  by (simp add: filter_msg_def watermarkClass_def initialClientWindows_def)

subsection \<open>The ready list\<close>

lemma readyPath_unique:
  "readyPath ra a bs \<Longrightarrow> readyPath ra a cs \<Longrightarrow> bs = cs"
proof (induction bs arbitrary: a cs)
  case Nil
  then show ?case by (cases cs) simp_all
next
  case (Cons b bs)
  then show ?case by (cases cs) auto
qed

lemma readyPath_suffix:
  "readyPath ra a (bs @ c # cs) \<Longrightarrow> readyPath ra c cs"
  by (induction bs arbitrary: a) auto

lemma readyPath_notin:
  assumes "readyPath ra a bs"
  shows "a \<notin> set bs"
proof
  assume "a \<in> set bs"
  then obtain xs ys where bs: "bs = xs @ a # ys"
    by (auto simp: in_set_conv_decomp)
  with assms have "readyPath ra a ys"
    using readyPath_suffix by blast
  with assms have "bs = ys" by (rule readyPath_unique)
  with bs show False by simp
qed

lemma readyPath_distinct:
  "readyPath ra a bs \<Longrightarrow> distinct (a # bs)"
proof (induction bs arbitrary: a)
  case Nil
  then show ?case by simp
next
  case (Cons b bs)
  from Cons.prems have "a \<notin> set (b # bs)" by (rule readyPath_notin)
  moreover have "distinct (b # bs)" using Cons.IH [of b] Cons.prems by simp
  ultimately show ?case by simp
qed

lemma readyPath_cong:
  "(\<And>x. x \<in> set (a # bs) \<Longrightarrow> re_next (ra' x) = re_next (ra x)) \<Longrightarrow>
     readyPath ra' a bs = readyPath ra a bs"
  by (induction bs arbitrary: a) auto

lemma readyPath_snoc:
  assumes p: "readyPath ra a bs" and n: "n \<notin> set (a # bs)"
    and ra': "re_next (ra' n) = None"
             "re_next (ra' (last (a # bs))) = Some n"
             "\<And>x. x \<in> set (a # bs) \<Longrightarrow> x \<noteq> last (a # bs) \<Longrightarrow> re_next (ra' x) = re_next (ra x)"
  shows "readyPath ra' a (bs @ [n])"
  using p n ra'
proof (induction bs arbitrary: a)
  case Nil
  then show ?case by simp
next
  case (Cons b bs)
  have d: "distinct (a # b # bs)" using Cons.prems(1) by (rule readyPath_distinct)
  have "a \<noteq> last (b # bs)" using d by (metis distinct.simps(2) last_in_set list.discI)
  then have na: "re_next (ra' a) = re_next (ra a)"
    using Cons.prems(5) [of a] by simp
  have "readyPath ra' b (bs @ [n])"
  proof (rule Cons.IH)
    show "readyPath ra b bs" using Cons.prems(1) by simp
    show "n \<notin> set (b # bs)" using Cons.prems(2) by simp
    show "re_next (ra' n) = None" by (rule Cons.prems(3))
    show "re_next (ra' (last (b # bs))) = Some n" using Cons.prems(4) by simp
    show "\<And>x. x \<in> set (b # bs) \<Longrightarrow> x \<noteq> last (b # bs) \<Longrightarrow> re_next (ra' x) = re_next (ra x)"
      using Cons.prems(5) by simp
  qed
  then show ?case using na Cons.prems(1) by simp
qed

lemma releasable_mark [simp]:
  "releasable h (cw\<lparr>nextReadyMark := x\<rparr>) = releasable h cw"
  by (rule ext) (simp add: releasable_def)

lemma readyRun_mark [simp]:
  "readyRun h (cw\<lparr>nextReadyMark := x\<rparr>) i = readyRun h cw i"
  by (simp add: readyRun_def)

lemma readyRun_above: "highWatermark cw < i \<Longrightarrow> readyRun h cw i = []"
  by (simp add: readyRun_def)

lemma readyRun_stop: "\<not> releasable h cw i \<Longrightarrow> readyRun h cw i = []"
  by (cases "i \<le> highWatermark cw") (simp_all add: readyRun_def upt_conv_Cons del: upt_Suc)

lemma readyRun_step:
  "i \<le> highWatermark cw \<Longrightarrow> releasable h cw i \<Longrightarrow> readyRun h cw i = i # readyRun h cw (Suc i)"
  by (simp add: readyRun_def upt_conv_Cons del: upt_Suc)

lemma readyRun_upt: "readyRun h cw i = [i..<i + length (readyRun h cw i)]"
proof -
  have "\<And>xs j. takeWhile P [i..<j] = [i..<i + length (takeWhile P [i..<j])]" for P :: "nat \<Rightarrow> bool"
  proof -
    fix j
    show "takeWhile P [i..<j] = [i..<i + length (takeWhile P [i..<j])]"
    proof (induction "j - i" arbitrary: i)
      case 0
      then show ?case by simp
    next
      case (Suc n)
      then have lt: "i < j" by simp
      have n: "n = j - Suc i" using Suc.hyps(2) by simp
      show ?case
        using Suc.hyps(1) [OF n] lt
        by (cases "P i") (simp_all add: upt_conv_Cons del: upt_Suc)
    qed
  qed
  then show ?thesis by (simp add: readyRun_def del: upt_Suc)
qed

lemma readyRun_bound: "i \<le> Suc (highWatermark cw) \<Longrightarrow> i + length (readyRun h cw i) \<le> Suc (highWatermark cw)"
proof -
  have "length (readyRun h cw i) \<le> length [i..<Suc (highWatermark cw)]"
    unfolding readyRun_def by (rule length_takeWhile_le)
  then show "i \<le> Suc (highWatermark cw) \<Longrightarrow> ?thesis" by (simp del: upt_Suc)
qed

lemma pushReady_fields [simp]:
  "windows (pushReady cws a) = windows cws"
  "clients (pushReady cws a) = clients cws"
  "cws_networkConfig (pushReady cws a) = cws_networkConfig cws"
  "msgBuffers (pushReady cws a) = msgBuffers cws"
  "readyHead (pushReady cws a) = readyHead cws"
  "crns (pushReady cws a) = crns cws"
  "correctList (pushReady cws a) = correctList cws"
  "myConfig_Id (pushReady cws a) = myConfig_Id cws"
  "readyFresh (pushReady cws a) = Suc (readyFresh cws)"
  "readyTail (pushReady cws a) = readyFresh cws"
  by (simp_all add: pushReady_def)

lemma pushReady_entry:
  "readyTail cws \<noteq> readyFresh cws \<Longrightarrow>
     readyAt (pushReady cws a) (readyFresh cws) = \<lparr>re_next = None, re_clientReqNo = a\<rparr>"
  "b \<noteq> readyFresh cws \<Longrightarrow> re_clientReqNo (readyAt (pushReady cws a) b) = re_clientReqNo (readyAt cws b)"
  "b \<noteq> readyFresh cws \<Longrightarrow> b \<noteq> readyTail cws \<Longrightarrow> readyAt (pushReady cws a) b = readyAt cws b"
  "readyTail cws \<noteq> readyFresh cws \<Longrightarrow>
     re_next (readyAt (pushReady cws a) (readyTail cws)) = Some (readyFresh cws)"
  by (simp_all add: pushReady_def)

lemma pushReady_path:
  assumes "readyPath (readyAt cws) s bs" and "last (s # bs) = readyTail cws"
    and "\<forall>b \<in> set (s # bs). b < readyFresh cws"
  shows "readyPath (readyAt (pushReady cws a)) s (bs @ [readyFresh cws])"
proof (rule readyPath_snoc [OF assms(1)])
  have t: "readyTail cws < readyFresh cws"
    using assms(2,3) by (metis last_in_set list.discI)
  show "readyFresh cws \<notin> set (s # bs)" using assms(3) by auto
  show "re_next (readyAt (pushReady cws a) (readyFresh cws)) = None"
    using t by (simp add: pushReady_entry(1))
  show "re_next (readyAt (pushReady cws a) (last (s # bs))) = Some (readyFresh cws)"
    using t assms(2) by (simp add: pushReady_entry(4))
  show "\<And>x. x \<in> set (s # bs) \<Longrightarrow> x \<noteq> last (s # bs) \<Longrightarrow>
          re_next (readyAt (pushReady cws a) x) = re_next (readyAt cws x)"
    using assms(2,3) by (subst pushReady_entry(3)) auto
qed

lemma advancedTo_refl:
  "readyPath (readyAt cws) s bs \<Longrightarrow> advancedTo cws cid cw i s bs [] cws"
  by (simp add: advancedTo_def)

lemma advancedTo_step:
  assumes w: "windows cws cid = Some cw" and a: "reqNoMap cw i = Some a"
    and t: "readyTail cws < readyFresh cws"
    and adv: "advancedTo ((pushReady cws a)\<lparr>windows := (windows cws)(cid \<mapsto> cw\<lparr>nextReadyMark := i + 1\<rparr>)\<rparr>)
                cid (cw\<lparr>nextReadyMark := i + 1\<rparr>) (i + 1) s (bs @ [readyFresh cws]) run cws'"
  shows "advancedTo cws cid cw i s bs (i # run) cws'"
proof -
  let ?n = "readyFresh cws"
  let ?cw1 = "cw\<lparr>nextReadyMark := i + 1\<rparr>"
  let ?cws1 = "(pushReady cws a)\<lparr>windows := (windows cws)(cid \<mapsto> ?cw1)\<rparr>"
  from adv have
    fr: "cws' = ?cws1\<lparr>windows := windows cws', readyAt := readyAt cws',
                   readyFresh := readyFresh cws', readyTail := readyTail cws'\<rparr>"
    and wi: "windows cws' = (if run = [] then windows ?cws1
                        else (windows ?cws1)(cid \<mapsto> ?cw1\<lparr>nextReadyMark := (i + 1) + length run\<rparr>))"
    and f: "readyFresh cws' = readyFresh ?cws1 + length run"
    and tl: "readyTail cws' = last (readyTail ?cws1 # [readyFresh ?cws1..<readyFresh ?cws1 + length run])"
    and pa: "readyPath (readyAt cws') s ((bs @ [?n]) @ [readyFresh ?cws1..<readyFresh ?cws1 + length run])"
    and en: "map (\<lambda>b. Some (re_clientReqNo (readyAt cws' b))) [readyFresh ?cws1..<readyFresh ?cws1 + length run]
                 = map (reqNoMap ?cw1) run"
    and ol: "\<forall>b < readyFresh ?cws1. re_clientReqNo (readyAt cws' b) = re_clientReqNo (readyAt ?cws1 b)"
    unfolding advancedTo_def by blast+
  have upt: "[?n..<?n + length (i # run)] = ?n # [Suc ?n..<Suc ?n + length run]"
    by (simp add: upt_conv_Cons del: upt_Suc)
  have c1: "cws' = cws\<lparr>windows := windows cws', readyAt := readyAt cws',
                   readyFresh := readyFresh cws', readyTail := readyTail cws'\<rparr>"
    by (subst fr) (simp add: pushReady_def)
  have c2: "windows cws' = (windows cws)(cid \<mapsto> cw\<lparr>nextReadyMark := i + length (i # run)\<rparr>)"
    using wi by simp
  have c3: "readyFresh cws' = ?n + length (i # run)"
    using f by simp
  have c4: "readyTail cws' = last (readyTail cws # ?n # [Suc ?n..<Suc ?n + length run])"
    using tl by (simp del: upt_Suc)
  have c5: "readyPath (readyAt cws') s (bs @ ?n # [Suc ?n..<Suc ?n + length run])"
    using pa by (simp del: upt_Suc)
  have c6: "re_clientReqNo (readyAt cws' ?n) = a"
    using ol t by (simp add: pushReady_entry(1))
  have c7: "map (\<lambda>b. Some (re_clientReqNo (readyAt cws' b))) [Suc ?n..<Suc ?n + length run]
                 = map (reqNoMap cw) run"
    using en by (simp del: upt_Suc)
  have c8: "\<forall>b < ?n. re_clientReqNo (readyAt cws' b) = re_clientReqNo (readyAt cws b)"
    using ol by (simp add: pushReady_entry(2))
  show ?thesis
    unfolding advancedTo_def upt
    using c1 c2 c3 c4 c5 c6 c7 c8 a
    by (intro conjI) (simp_all del: upt_Suc last.simps)
qed

lemma advanceReadyFrom_run:
  assumes "windows cws cid = Some cw"
    and "\<forall>j. i \<le> j \<and> j \<le> highWatermark cw \<longrightarrow> reqNoMap cw j \<noteq> None"
    and "strongOK (crns cws)"
    and "readyPath (readyAt cws) s bs"
    and "last (s # bs) = readyTail cws"
    and "\<forall>b \<in> set (s # bs). b < readyFresh cws"
    and "highWatermark cw < 2 ^ 64 - 1"
  shows "\<exists>cws'. advanceReadyFrom cws cid i = Some (Inr cws')
           \<and> advancedTo cws cid cw i s bs (readyRun (crns cws) cw i) cws'"
  using assms
proof (induction "Suc (highWatermark cw) - i" arbitrary: cws cw i bs)
  case 0
  then have hi: "highWatermark cw < i" by simp
  have "advanceReadyFrom cws cid i = Some (Inr cws)"
    using "0.prems"(1) hi by (simp add: advanceReadyFrom.simps [of cws cid i])
  then show ?case
    using "0.prems"(4) by (simp add: readyRun_above [OF hi] advancedTo_refl)
next
  case (Suc n)
  then have le: "i \<le> highWatermark cw" by simp
  obtain a where a: "reqNoMap cw i = Some a"
    using Suc.prems(2) le by auto
  show ?case
  proof (cases "releasable (crns cws) cw i")
    case False
    have so: "\<And>d. strongRequest (crnAt (crns cws) a) = Some d \<Longrightarrow>
                 digests (crnAt (crns cws) a) d \<noteq> None"
      using Suc.prems(3) by (simp add: strongOK_def)
    have "advanceReadyFrom cws cid i = Some (Inr cws)"
      using Suc.prems(1) le a False so
      by (auto simp: advanceReadyFrom.simps [of cws cid i] releasable_def
            split: option.splits)
    then show ?thesis
      using Suc.prems(4) by (simp add: readyRun_stop [OF False] advancedTo_refl)
  next
    case True
    then obtain d cr rd where s: "strongRequest (crnAt (crns cws) a) = Some d"
      "digests (crnAt (crns cws) a) d = Some cr" "data cr = Some rd"
      using a by (auto simp: releasable_def split: option.splits)
    let ?cw1 = "cw\<lparr>nextReadyMark := i + 1\<rparr>"
    let ?cws1 = "(pushReady cws a)\<lparr>windows := (windows cws)(cid \<mapsto> ?cw1)\<rparr>"
    let ?n = "readyFresh cws"
    have w64: "wrap64 (Suc i) = Suc i"
      using le Suc.prems(7) by (simp add: wrap64_id)
    have step: "advanceReadyFrom cws cid i = advanceReadyFrom ?cws1 cid (i + 1)"
      using Suc.prems(1) le a s w64 by (simp add: advanceReadyFrom.simps [of cws cid i])
    have run: "readyRun (crns cws) cw i = i # readyRun (crns cws) cw (Suc i)"
      using le True by (rule readyRun_step)
    have t: "readyTail cws < ?n"
      using Suc.prems(5,6) by (metis last_in_set list.discI)
    have p1: "readyPath (readyAt ?cws1) s (bs @ [?n])"
      using pushReady_path [OF Suc.prems(4,5,6), of a] by simp
    have "\<exists>cws'. advanceReadyFrom ?cws1 cid (i + 1) = Some (Inr cws')
           \<and> advancedTo ?cws1 cid ?cw1 (i + 1) s (bs @ [?n]) (readyRun (crns ?cws1) ?cw1 (i + 1)) cws'"
    proof (rule Suc.hyps(1))
      show "n = Suc (highWatermark ?cw1) - (i + 1)" using Suc.hyps(2) by simp
      show "windows ?cws1 cid = Some ?cw1" by simp
      show "\<forall>j. i + 1 \<le> j \<and> j \<le> highWatermark ?cw1 \<longrightarrow> reqNoMap ?cw1 j \<noteq> None"
        using Suc.prems(2) by simp
      show "strongOK (crns ?cws1)" using Suc.prems(3) by simp
      show "readyPath (readyAt ?cws1) s (bs @ [?n])" by (rule p1)
      show "last (s # bs @ [?n]) = readyTail ?cws1" by simp
      show "\<forall>b\<in>set (s # bs @ [?n]). b < readyFresh ?cws1"
        using Suc.prems(6) by (auto simp: less_Suc_eq)
      show "highWatermark ?cw1 < 2 ^ 64 - 1" using Suc.prems(7) by simp
    qed
    then obtain cws' where r: "advanceReadyFrom ?cws1 cid (i + 1) = Some (Inr cws')"
      and adv: "advancedTo ?cws1 cid ?cw1 (i + 1) s (bs @ [?n]) (readyRun (crns cws) cw (Suc i)) cws'"
      by auto
    from advancedTo_step [OF Suc.prems(1) a t adv] r
    show ?thesis
      unfolding step run by blast
  qed
qed

lemma readyRun_releasable: "i \<in> set (readyRun h cw j) \<Longrightarrow> releasable h cw i"
  unfolding readyRun_def by (rule set_takeWhileD [THEN conjunct2])

lemma readyRun_end:
  assumes "j \<le> highWatermark cw" and "j + length (readyRun h cw j) \<le> highWatermark cw"
  shows "\<not> releasable h cw (j + length (readyRun h cw j))"
proof -
  let ?xs = "[j..<Suc (highWatermark cw)]"
  let ?k = "length (takeWhile (releasable h cw) ?xs)"
  have k: "?k < length ?xs"
    using assms(2) by (simp add: readyRun_def del: upt_Suc)
  then have "\<not> releasable h cw (?xs ! ?k)"
    by (rule nth_length_takeWhile)
  moreover have "?xs ! ?k = j + ?k"
    using k by (intro nth_upt) (simp del: upt_Suc)
  ultimately show ?thesis by (simp add: readyRun_def del: upt_Suc)
qed

lemma advancedToD:
  assumes "advancedTo cws cid cw i s bs run cws'"
  shows "cws' = cws\<lparr>windows := windows cws', readyAt := readyAt cws',
                   readyFresh := readyFresh cws', readyTail := readyTail cws'\<rparr>"
    and "windows cws' = (if run = [] then windows cws
                        else (windows cws)(cid \<mapsto> cw\<lparr>nextReadyMark := i + length run\<rparr>))"
    and "readyFresh cws' = readyFresh cws + length run"
    and "readyTail cws' = last (readyTail cws # [readyFresh cws..<readyFresh cws + length run])"
    and "readyPath (readyAt cws') s (bs @ [readyFresh cws..<readyFresh cws + length run])"
    and "map (\<lambda>b. Some (re_clientReqNo (readyAt cws' b))) [readyFresh cws..<readyFresh cws + length run]
          = map (reqNoMap cw) run"
    and "\<forall>b < readyFresh cws. re_clientReqNo (readyAt cws' b) = re_clientReqNo (readyAt cws b)"
  using assms unfolding advancedTo_def by blast+

text \<open>
  What \<open>advanceReady\<close> does on a window that is \<open>windowOK\<close>, with its mark not below the
  low watermark and its high watermark below \<open>2^64 - 1\<close>, when no \<open>strongRequest\<close> dangles
  and \<open>readyTail\<close> is an entry without a successor. It returns, and with \<open>run\<close> the longest
  run of releasable request numbers from \<open>nextReadyMark\<close> on: \<open>run\<close> is the ascending,
  gap-free sequence starting at the mark, every number in it is releasable, and the number
  after it is not (unless the run reaches the high watermark); the mark is moved past the
  run; and one new entry per number of \<open>run\<close>, in this order and pointing to the
  \<open>clientReqNo\<close> of that number, is linked behind the old \<open>readyTail\<close>, with \<open>readyTail\<close>
  moved to the last of them. Only when the old \<open>readyTail\<close> is the end of the list that
  starts at \<open>readyHead\<close> is that list the old one followed by the new entries.
\<close>

lemma advanceReady_releases:
  fixes cws :: clientWindows and cw :: clientWindow
  defines "run \<equiv> readyRun (crns cws) cw (nextReadyMark cw)"
  defines "new \<equiv> [readyFresh cws..<readyFresh cws + length (readyRun (crns cws) cw (nextReadyMark cw))]"
  assumes w: "windows cws cid = Some cw"
    and ok: "windowOK (crns cws) cw"
    and lo: "lowWatermark cw \<le> nextReadyMark cw"
    and so: "strongOK (crns cws)"
    and tl: "readyTail cws < readyFresh cws" "re_next (readyAt cws (readyTail cws)) = None"
    and hi: "highWatermark cw < 2 ^ 64 - 1"
  shows "\<exists>cws'. advanceReady cws cid = Some (Inr cws')
     \<and> run = [nextReadyMark cw..<nextReadyMark cw + length run]
     \<and> (\<forall>i \<in> set run. releasable (crns cws) cw i)
     \<and> (nextReadyMark cw + length run \<le> highWatermark cw
          \<longrightarrow> \<not> releasable (crns cws) cw (nextReadyMark cw + length run))
     \<and> windows cws' = (windows cws)(cid \<mapsto> cw\<lparr>nextReadyMark := nextReadyMark cw + length run\<rparr>)
     \<and> crns cws' = crns cws
     \<and> readyPath (readyAt cws') (readyTail cws) new
     \<and> readyTail cws' = last (readyTail cws # new)
     \<and> map (\<lambda>b. Some (re_clientReqNo (readyAt cws' b))) new = map (reqNoMap cw) run
     \<and> map (\<lambda>b. reqNo (crnAt (crns cws) (re_clientReqNo (readyAt cws' b)))) new = run
     \<and> (\<forall>bs. readyPath (readyAt cws) (readyHead cws) bs
               \<and> last (readyHead cws # bs) = readyTail cws
               \<and> (\<forall>b \<in> set (readyHead cws # bs). b < readyFresh cws)
            \<longrightarrow> readyHead cws' = readyHead cws
                \<and> readyPath (readyAt cws') (readyHead cws) (bs @ new)
                \<and> map (\<lambda>b. re_clientReqNo (readyAt cws' b)) bs
                    = map (\<lambda>b. re_clientReqNo (readyAt cws b)) bs)"
proof -
  let ?m = "nextReadyMark cw"
  have mapped: "\<forall>j. ?m \<le> j \<and> j \<le> highWatermark cw \<longrightarrow> reqNoMap cw j \<noteq> None"
    using windowOK_lookup [OF ok] lo by (fastforce simp: inWatermarks_def)
  have p0: "readyPath (readyAt cws) (readyTail cws) []" using tl(2) by simp
  from advanceReadyFrom_run [OF w mapped so p0 _ _ hi] tl(1)
  obtain cws' where r: "advanceReadyFrom cws cid ?m = Some (Inr cws')"
    and adv: "advancedTo cws cid cw ?m (readyTail cws) [] run cws'"
    unfolding run_def by auto
  have ar: "advanceReady cws cid = Some (Inr cws')"
    using w r by (simp add: advanceReady_def)
  have upt: "run = [?m..<?m + length run]"
    unfolding run_def by (rule readyRun_upt)
  have rel: "\<forall>i \<in> set run. releasable (crns cws) cw i"
    unfolding run_def by (blast intro: readyRun_releasable)
  have stop: "?m + length run \<le> highWatermark cw \<longrightarrow> \<not> releasable (crns cws) cw (?m + length run)"
  proof
    assume a: "?m + length run \<le> highWatermark cw"
    then have "?m \<le> highWatermark cw" by simp
    from readyRun_end [OF this, of "crns cws"] a
    show "\<not> releasable (crns cws) cw (?m + length run)"
      unfolding run_def by simp
  qed
  have same: "cw\<lparr>nextReadyMark := ?m\<rparr> = cw" by simp
  have win: "windows cws' = (windows cws)(cid \<mapsto> cw\<lparr>nextReadyMark := ?m + length run\<rparr>)"
  proof (cases "run = []")
    case True
    then have "windows cws' = windows cws" using advancedToD(2) [OF adv] by simp
    moreover have "(windows cws)(cid \<mapsto> cw) = windows cws" using w by (rule map_upd_triv)
    ultimately show ?thesis using True same by simp
  next
    case False
    then show ?thesis using advancedToD(2) [OF adv] by simp
  qed
  have frame: "cws' = cws\<lparr>windows := windows cws', readyAt := readyAt cws',
                   readyFresh := readyFresh cws', readyTail := readyTail cws'\<rparr>"
    by (rule advancedToD(1) [OF adv])
  have crn: "crns cws' = crns cws" by (subst frame) simp
  have hd: "readyHead cws' = readyHead cws" by (subst frame) simp
  have path: "readyPath (readyAt cws') (readyTail cws) new"
    using advancedToD(5) [OF adv] unfolding new_def run_def by simp
  have tail: "readyTail cws' = last (readyTail cws # new)"
    using advancedToD(4) [OF adv] unfolding new_def run_def .
  have ent: "map (\<lambda>b. Some (re_clientReqNo (readyAt cws' b))) new = map (reqNoMap cw) run"
    using advancedToD(6) [OF adv] unfolding new_def run_def .
  have old: "\<forall>b < readyFresh cws. re_clientReqNo (readyAt cws' b) = re_clientReqNo (readyAt cws b)"
    by (rule advancedToD(7) [OF adv])
  have len: "length new = length run" unfolding new_def run_def by simp
  have nos: "map (\<lambda>b. reqNo (crnAt (crns cws) (re_clientReqNo (readyAt cws' b)))) new = run"
  proof (rule nth_equalityI)
    show "length (map (\<lambda>b. reqNo (crnAt (crns cws) (re_clientReqNo (readyAt cws' b)))) new) = length run"
      using len by simp
    fix k assume "k < length (map (\<lambda>b. reqNo (crnAt (crns cws) (re_clientReqNo (readyAt cws' b)))) new)"
    then have k: "k < length run" "k < length new" using len by simp_all
    have "map (\<lambda>b. Some (re_clientReqNo (readyAt cws' b))) new ! k = map (reqNoMap cw) run ! k"
      using ent by simp
    then have e: "reqNoMap cw (run ! k) = Some (re_clientReqNo (readyAt cws' (new ! k)))"
      using k by simp
    have "run ! k = ?m + k" using upt k(1) by (metis nth_upt add.commute nat_add_left_cancel_less)
    moreover have "?m + length run \<le> Suc (highWatermark cw) \<or> run = []"
      unfolding run_def
      by (cases "?m \<le> Suc (highWatermark cw)") (simp_all add: readyRun_bound readyRun_above)
    ultimately have "inWatermarks cw (run ! k)"
      using k(1) lo by (auto simp: inWatermarks_def)
    from windowOK_lookup [OF ok this] e
    have "reqNo (crnAt (crns cws) (re_clientReqNo (readyAt cws' (new ! k)))) = run ! k"
      by auto
    then show "map (\<lambda>b. reqNo (crnAt (crns cws) (re_clientReqNo (readyAt cws' b)))) new ! k = run ! k"
      using k(2) by simp
  qed
  have head: "\<forall>bs. readyPath (readyAt cws) (readyHead cws) bs
               \<and> last (readyHead cws # bs) = readyTail cws
               \<and> (\<forall>b \<in> set (readyHead cws # bs). b < readyFresh cws)
            \<longrightarrow> readyHead cws' = readyHead cws
                \<and> readyPath (readyAt cws') (readyHead cws) (bs @ new)
                \<and> map (\<lambda>b. re_clientReqNo (readyAt cws' b)) bs
                    = map (\<lambda>b. re_clientReqNo (readyAt cws b)) bs"
  proof (intro allI impI, elim conjE)
    fix bs
    assume p: "readyPath (readyAt cws) (readyHead cws) bs"
      and l: "last (readyHead cws # bs) = readyTail cws"
      and f: "\<forall>b \<in> set (readyHead cws # bs). b < readyFresh cws"
    from advanceReadyFrom_run [OF w mapped so p l f hi] r
    have "advancedTo cws cid cw ?m (readyHead cws) bs run cws'"
      unfolding run_def by auto
    then have "readyPath (readyAt cws') (readyHead cws) (bs @ new)"
      unfolding new_def run_def by (rule advancedToD(5))
    moreover have "map (\<lambda>b. re_clientReqNo (readyAt cws' b)) bs
                    = map (\<lambda>b. re_clientReqNo (readyAt cws b)) bs"
      using old f by (intro map_cong) auto
    ultimately show "readyHead cws' = readyHead cws
                \<and> readyPath (readyAt cws') (readyHead cws) (bs @ new)
                \<and> map (\<lambda>b. re_clientReqNo (readyAt cws' b)) bs
                    = map (\<lambda>b. re_clientReqNo (readyAt cws b)) bs"
      using hd by simp
  qed
  show ?thesis
    using ar upt rel stop win crn path tail ent nos head by blast
qed

text \<open>
  Claim C3 (the failing input). One node, so both quorums are 1, and a window for the
  request numbers 0 to 3 of client 7. The requests 0 and 1 are allocated and acknowledged,
  and \<open>advanceReady\<close> releases them: the ready list from \<open>readyHead\<close> holds the entries 1
  and 2, for the requests 0 and 1, and \<open>readyTail\<close> is the entry 2. Both requests are
  committed, at the sequence numbers 1 and 2, and \<open>garbageCollect(2)\<close> runs. Its sweep
  drops entry 1 by putting a fresh copy of its successor, entry 3, behind the anchor, and
  keeps that copy as the tail of the list; \<open>readyTail\<close> is not assigned to and still
  points to entry 2, which is no longer on the list. Now request 2 is allocated and
  acknowledged, and \<open>advanceReady\<close> releases it: the mark moves from 2 to 3 and the new
  entry 4 is linked behind \<open>readyTail\<close>, the detached entry 2. The list from \<open>readyHead\<close>
  is still the entry 3 alone, for request 1: the released request 2 is not on the ready
  list.
\<close>

theorem advanceReady_behind_detached_tail:
  "(case newClientWindow (crns (initialClientWindows 0)) 7 0 3 \<lparr>Nodes = [0]\<rparr> of
      None \<Rightarrow> False
    | Some (h0, cw) \<Rightarrow>
   (case cws_allocate
           ((insert_window ((initialClientWindows 0)\<lparr>cws_networkConfig := Some \<lparr>Nodes = [0]\<rparr>,
                                                       crns := h0\<rparr>) 7 cw)
              \<lparr>msgBuffers := [0 \<mapsto> []]\<rparr>)
           (Request 7 0 ''a'') ''H0'' of
      Some (Inr cws1) \<Rightarrow>
   (case cws_ack cws1 0 (RequestAck 7 0 ''H0'') of
      Some (Inr (cws2, a2, d2)) \<Rightarrow>
   (case cws_allocate cws2 (Request 7 1 ''b'') ''H1'' of
      Some (Inr cws3) \<Rightarrow>
   (case cws_ack cws3 0 (RequestAck 7 1 ''H1'') of
      Some (Inr (cws4, a4, d4)) \<Rightarrow>
   (case cws_garbageCollect
           (cws4\<lparr>crns := (crns cws4)\<lparr>crnAt := (crnAt (crns cws4))
                     (a2 := (crnAt (crns cws4) a2)\<lparr>committed := Some 1\<rparr>,
                      a4 := (crnAt (crns cws4) a4)\<lparr>committed := Some 2\<rparr>)\<rparr>\<rparr>) 2 of
      Some (Inr cws5) \<Rightarrow>
   (case cws_allocate cws5 (Request 7 2 ''c'') ''H2'' of
      Some (Inr cws6) \<Rightarrow>
   (case cws_ack cws6 0 (RequestAck 7 2 ''H2'') of
      Some (Inr (cws7, a7, d7)) \<Rightarrow>
        map_option nextReadyMark (windows cws4 7) = Some 2
        \<and> readyPath (readyAt cws4) (readyHead cws4) [1, 2]
        \<and> map (\<lambda>b. reqNo (crnAt (crns cws4) (re_clientReqNo (readyAt cws4 b)))) [1, 2] = [0, 1]
        \<and> readyTail cws4 = 2
        \<and> map_option (\<lambda>w. (nextReadyMark w, lowWatermark w, highWatermark w)) (windows cws5 7)
             = Some (2, 2, 5)
        \<and> readyPath (readyAt cws5) (readyHead cws5) [3]
        \<and> reqNo (crnAt (crns cws5) (re_clientReqNo (readyAt cws5 3))) = 1
        \<and> readyTail cws5 = 2
        \<and> map_option nextReadyMark (windows cws6 7) = Some 2
        \<and> map_option nextReadyMark (windows cws7 7) = Some 3
        \<and> readyPath (readyAt cws7) (readyHead cws7) [3]
        \<and> reqNo (crnAt (crns cws7) (re_clientReqNo (readyAt cws7 3))) = 1
        \<and> readyPath (readyAt cws7) 2 [4]
        \<and> reqNo (crnAt (crns cws7) (re_clientReqNo (readyAt cws7 4))) = 2
        \<and> readyTail cws7 = 4
    | _ \<Rightarrow> False)
    | _ \<Rightarrow> False)
    | _ \<Rightarrow> False)
    | _ \<Rightarrow> False)
    | _ \<Rightarrow> False)
    | _ \<Rightarrow> False)
    | _ \<Rightarrow> False))"
  by (simp add: newClientWindow_windowOf windowOf_def pushBackReqNo_def initialClientWindows_def
        upt_rec insert_window_def cws_allocate_def cws_ack_def checkReady_def advanceReady_def
        advanceReadyFrom.simps pushReady_def wrap64_def
        cw_allocate_def cw_ack_def Let_def someCorrectQuorum_def intersectionQuorum_def
        faults_def cws_garbageCollect_def cw_garbageCollect_def gcFront.simps gcReadyList.simps
        drainBuffer.simps filter_msg_def)

subsection \<open>The sweep of the ready list\<close>

lemma sweepResult_filter:
  "sweepResult dr vs = filter (\<lambda>v. \<not> dr v) (butlast vs) @ (if vs = [] then [] else [last vs])"
  by (induction dr vs rule: sweepResult.induct) auto

lemma readyPath_copy:
  assumes "readyPath ra c bs" and "re_next (ra' n) = re_next (ra c)"
    and "\<And>x. x \<in> set bs \<Longrightarrow> re_next (ra' x) = re_next (ra x)"
  shows "readyPath ra' n bs"
proof (cases bs)
  case Nil
  then show ?thesis using assms by simp
next
  case (Cons b bs')
  have "readyPath ra' b bs' = readyPath ra b bs'"
    using assms(3) Cons by (intro readyPath_cong) simp
  then show ?thesis using assms(1,2) Cons by simp
qed

lemma gcReadyList_sweep:
  assumes "readyPath (readyAt cws) el bs" and "\<forall>b \<in> set (el # bs). b < readyFresh cws"
  shows "\<exists>cws' bs'. gcReadyList cws seqNo el = Some cws' \<and> sweptTo cws seqNo el bs cws' bs'"
  using assms
proof (induction "length bs" arbitrary: cws el bs rule: less_induct)
  case less
  show ?case
  proof (cases bs)
    case Nil
    then have "gcReadyList cws seqNo el = Some cws"
      using less.prems(1) by (simp add: gcReadyList.simps [of cws seqNo el])
    moreover have "sweptTo cws seqNo el bs cws []"
      using Nil less.prems by (simp add: sweptTo_def)
    ultimately show ?thesis by blast
  next
    case (Cons b bs1)
    have nx: "re_next (readyAt cws el) = Some b" and p1: "readyPath (readyAt cws) b bs1"
      using less.prems(1) Cons by simp_all
    have d: "distinct (el # b # bs1)"
      using less.prems(1) Cons readyPath_distinct by blast
    let ?vb = "re_clientReqNo (readyAt cws b)"
    show ?thesis
    proof (cases "collected (crns cws) seqNo ?vb")
      case False
      have step: "gcReadyList cws seqNo el = gcReadyList cws seqNo b"
        using nx False
        by (simp add: gcReadyList.simps [of cws seqNo el] collected_def split: option.splits)
      have "\<exists>cws' bs'. gcReadyList cws seqNo b = Some cws' \<and> sweptTo cws seqNo b bs1 cws' bs'"
        using less.prems(2) Cons by (intro less.hyps p1) simp_all
      then obtain cws' bs' where r: "gcReadyList cws seqNo b = Some cws'"
        and sw: "sweptTo cws seqNo b bs1 cws' bs'"
        by blast
      from sw have
        fr: "cws' = cws\<lparr>readyAt := readyAt cws', readyFresh := readyFresh cws'\<rparr>"
        and mono: "readyFresh cws \<le> readyFresh cws'"
        and pa: "readyPath (readyAt cws') b bs'"
        and va: "map (\<lambda>b. re_clientReqNo (readyAt cws' b)) bs'
          = sweepResult (collected (crns cws) seqNo) (map (\<lambda>b. re_clientReqNo (readyAt cws b)) bs1)"
        and vb: "re_clientReqNo (readyAt cws' b) = re_clientReqNo (readyAt cws b)"
        and un: "\<forall>x < readyFresh cws. x \<notin> set (b # bs1) \<longrightarrow> readyAt cws' x = readyAt cws x"
        and bd: "\<forall>x \<in> set (b # bs'). x < readyFresh cws'"
        unfolding sweptTo_def by blast+
      have el: "readyAt cws' el = readyAt cws el"
        using un d less.prems(2) by simp
      have v': "map (\<lambda>b. re_clientReqNo (readyAt cws' b)) (b # bs')
          = sweepResult (collected (crns cws) seqNo) (map (\<lambda>b. re_clientReqNo (readyAt cws b)) (b # bs1))"
        using va vb False by (cases bs1) simp_all
      have "sweptTo cws seqNo el bs cws' (b # bs')"
        unfolding sweptTo_def
      proof (intro conjI)
        show "cws' = cws\<lparr>readyAt := readyAt cws', readyFresh := readyFresh cws'\<rparr>" by (rule fr)
        show "readyFresh cws \<le> readyFresh cws'" by (rule mono)
        show "readyPath (readyAt cws') el (b # bs')" using pa el nx by simp
        show "map (\<lambda>b. re_clientReqNo (readyAt cws' b)) (b # bs')
          = sweepResult (collected (crns cws) seqNo) (map (\<lambda>b. re_clientReqNo (readyAt cws b)) bs)"
          using v' Cons by simp
        show "re_clientReqNo (readyAt cws' el) = re_clientReqNo (readyAt cws el)" using el by simp
        show "\<forall>x < readyFresh cws. x \<notin> set (el # bs) \<longrightarrow> readyAt cws' x = readyAt cws x"
          using un Cons by simp
        show "\<forall>x \<in> set (el # b # bs'). x < readyFresh cws'"
          using bd less.prems(2) mono by auto
      qed
      with r step show ?thesis by auto
    next
      case True
      show ?thesis
      proof (cases bs1)
        case Nil
        have "gcReadyList cws seqNo el = Some cws"
          using nx True p1 Nil
          by (simp add: gcReadyList.simps [of cws seqNo el] collected_def split: option.splits)
        moreover have "sweptTo cws seqNo el bs cws [b]"
          using Nil Cons less.prems by (simp add: sweptTo_def)
        ultimately show ?thesis by blast
      next
        case c: (Cons c bs2)
        let ?n = "readyFresh cws"
        let ?copy = "\<lparr>re_next = re_next (readyAt cws c), re_clientReqNo = re_clientReqNo (readyAt cws c)\<rparr>"
        let ?ra1 = "((readyAt cws)(?n := ?copy))(el := (((readyAt cws)(?n := ?copy)) el)\<lparr>re_next := Some ?n\<rparr>)"
        let ?cws1 = "cws\<lparr>readyAt := ?ra1, readyFresh := Suc ?n\<rparr>"
        have nb: "re_next (readyAt cws b) = Some c" and p2: "readyPath (readyAt cws) c bs2"
          using p1 c by simp_all
        have step: "gcReadyList cws seqNo el = gcReadyList ?cws1 seqNo el"
          using nx True nb
          by (simp add: gcReadyList.simps [of cws seqNo el] collected_def split: option.splits)
        have lt: "el < ?n" "b < ?n" "c < ?n" "\<forall>x \<in> set bs2. x < ?n"
          using less.prems(2) Cons c by simp_all
        have eln: "el \<noteq> ?n" using lt by simp
        have pn: "readyPath ?ra1 ?n bs2"
        proof (rule readyPath_copy [OF p2])
          show "re_next (?ra1 ?n) = re_next (readyAt cws c)" using eln by simp
          show "\<And>x. x \<in> set bs2 \<Longrightarrow> re_next (?ra1 x) = re_next (readyAt cws x)"
            using d lt c Cons by auto
        qed
        have pe: "readyPath (readyAt ?cws1) el (?n # bs2)"
          using pn by simp
        have bd1: "\<forall>x \<in> set (el # ?n # bs2). x < readyFresh ?cws1"
          using lt by (auto simp: less_Suc_eq)
        have "\<exists>cws' bs'. gcReadyList ?cws1 seqNo el = Some cws' \<and> sweptTo ?cws1 seqNo el (?n # bs2) cws' bs'"
          using Cons c by (intro less.hyps pe bd1) simp
        then obtain cws' bs' where r: "gcReadyList ?cws1 seqNo el = Some cws'"
          and sw: "sweptTo ?cws1 seqNo el (?n # bs2) cws' bs'"
          by blast
        from sw have
          fr: "cws' = ?cws1\<lparr>readyAt := readyAt cws', readyFresh := readyFresh cws'\<rparr>"
          and mono: "readyFresh ?cws1 \<le> readyFresh cws'"
          and pa: "readyPath (readyAt cws') el bs'"
          and va: "map (\<lambda>b. re_clientReqNo (readyAt cws' b)) bs'
            = sweepResult (collected (crns ?cws1) seqNo) (map (\<lambda>b. re_clientReqNo (readyAt ?cws1 b)) (?n # bs2))"
          and ve: "re_clientReqNo (readyAt cws' el) = re_clientReqNo (readyAt ?cws1 el)"
          and un: "\<forall>x < readyFresh ?cws1. x \<notin> set (el # ?n # bs2) \<longrightarrow> readyAt cws' x = readyAt ?cws1 x"
          and bd: "\<forall>x \<in> set (el # bs'). x < readyFresh cws'"
          unfolding sweptTo_def by blast+
        have vals: "map (\<lambda>b. re_clientReqNo (readyAt ?cws1 b)) (?n # bs2)
                      = map (\<lambda>b. re_clientReqNo (readyAt cws b)) (c # bs2)"
          using d lt c Cons eln by auto
        have cr: "crns ?cws1 = crns cws" by simp
        have va': "map (\<lambda>b. re_clientReqNo (readyAt cws' b)) bs'
            = sweepResult (collected (crns cws) seqNo) (map (\<lambda>b. re_clientReqNo (readyAt cws b)) (c # bs2))"
          using va unfolding vals cr .
        have "sweptTo cws seqNo el bs cws' bs'"
          unfolding sweptTo_def
        proof (intro conjI)
          show "cws' = cws\<lparr>readyAt := readyAt cws', readyFresh := readyFresh cws'\<rparr>"
            by (subst fr) simp
          show "readyFresh cws \<le> readyFresh cws'" using mono by simp
          show "readyPath (readyAt cws') el bs'" by (rule pa)
          show "map (\<lambda>b. re_clientReqNo (readyAt cws' b)) bs'
            = sweepResult (collected (crns cws) seqNo) (map (\<lambda>b. re_clientReqNo (readyAt cws b)) bs)"
            using va' True Cons c by simp
          show "re_clientReqNo (readyAt cws' el) = re_clientReqNo (readyAt cws el)"
            using ve eln by simp
          show "\<forall>x < readyFresh cws. x \<notin> set (el # bs) \<longrightarrow> readyAt cws' x = readyAt cws x"
            using un Cons c by auto
          show "\<forall>x \<in> set (el # bs'). x < readyFresh cws'" by (rule bd)
        qed
        with r step show ?thesis by auto
      qed
    qed
  qed
qed

text \<open>
  Claim C5, as amended. \<open>clientWindows.garbageCollect\<close> first collects every window, then
  sweeps the ready list from \<open>readyHead\<close>, then re-applies buffered messages. On a ready
  list that is properly linked, the sweep returns; \<open>readyHead\<close> and the \<open>clientReqNo\<close> of
  the head entry (the anchor) are as before; and the entries behind the head are the
  former ones without those that are collected at \<open>seqNo\<close>, except that the last entry is
  kept whether it is collected or not. Hence no entry but the last is collected at
  \<open>seqNo\<close> after the sweep. (\<open>readyTail\<close> is not assigned to by the sweep.)
\<close>

theorem gcReadyList_keeps_tail:
  assumes "readyPath (readyAt cws) (readyHead cws) bs"
    and "\<forall>b \<in> set (readyHead cws # bs). b < readyFresh cws"
  shows "\<exists>cws' bs'. gcReadyList cws seqNo (readyHead cws) = Some cws'
     \<and> readyHead cws' = readyHead cws
     \<and> re_clientReqNo (readyAt cws' (readyHead cws')) = re_clientReqNo (readyAt cws (readyHead cws))
     \<and> crns cws' = crns cws \<and> windows cws' = windows cws \<and> readyTail cws' = readyTail cws
     \<and> readyPath (readyAt cws') (readyHead cws') bs'
     \<and> map (\<lambda>b. re_clientReqNo (readyAt cws' b)) bs'
         = filter (\<lambda>a. \<not> collected (crns cws) seqNo a)
             (butlast (map (\<lambda>b. re_clientReqNo (readyAt cws b)) bs))
           @ (if bs = [] then [] else [re_clientReqNo (readyAt cws (last bs))])
     \<and> (\<forall>b \<in> set (butlast bs').
           \<not> collected (crns cws') seqNo (re_clientReqNo (readyAt cws' b)))"
proof -
  from gcReadyList_sweep [OF assms, of seqNo]
  obtain cws' bs' where r: "gcReadyList cws seqNo (readyHead cws) = Some cws'"
    and sw: "sweptTo cws seqNo (readyHead cws) bs cws' bs'"
    by blast
  let ?vs = "map (\<lambda>b. re_clientReqNo (readyAt cws b)) bs"
  from sw have
    fr: "cws' = cws\<lparr>readyAt := readyAt cws', readyFresh := readyFresh cws'\<rparr>"
    and pa: "readyPath (readyAt cws') (readyHead cws) bs'"
    and va: "map (\<lambda>b. re_clientReqNo (readyAt cws' b)) bs' = sweepResult (collected (crns cws) seqNo) ?vs"
    and ve: "re_clientReqNo (readyAt cws' (readyHead cws)) = re_clientReqNo (readyAt cws (readyHead cws))"
    unfolding sweptTo_def by blast+
  have hd: "readyHead cws' = readyHead cws" and cr: "crns cws' = crns cws"
    and wi: "windows cws' = windows cws" and tl: "readyTail cws' = readyTail cws"
    by (subst fr, simp)+
  have lst: "(if ?vs = [] then [] else [last ?vs])
               = (if bs = [] then [] else [re_clientReqNo (readyAt cws (last bs))])"
    by (simp add: last_map)
  have va': "map (\<lambda>b. re_clientReqNo (readyAt cws' b)) bs'
         = filter (\<lambda>a. \<not> collected (crns cws) seqNo a) (butlast ?vs)
           @ (if bs = [] then [] else [re_clientReqNo (readyAt cws (last bs))])"
    using va lst by (simp only: sweepResult_filter)
  have "butlast (map (\<lambda>b. re_clientReqNo (readyAt cws' b)) bs')
          = filter (\<lambda>a. \<not> collected (crns cws) seqNo a) (butlast ?vs)"
    unfolding va' by (simp add: butlast_append)
  then have "set (map (\<lambda>b. re_clientReqNo (readyAt cws' b)) (butlast bs'))
          \<subseteq> {a. \<not> collected (crns cws) seqNo a}"
    by (auto simp: map_butlast)
  then have nc: "\<forall>b \<in> set (butlast bs').
           \<not> collected (crns cws') seqNo (re_clientReqNo (readyAt cws' b))"
    unfolding cr by auto
  show ?thesis
    using r hd ve cr wi tl pa va' nc by (intro exI [of _ cws'] exI [of _ bs']) simp
qed

theorem gcReadyList_keeps_tail_witness:
  "(case newClientWindow (crns (initialClientWindows 0)) 7 0 2 \<lparr>Nodes = [0, 1, 2, 3]\<rparr> of
      None \<Rightarrow> False
    | Some hc \<Rightarrow>
   (let cws0 = pushReady (pushReady
                 (insert_window ((initialClientWindows 0)\<lparr>crns := fst hc\<rparr>) 7 (snd hc)) 1) 2;
        cws = cws0\<lparr>crns := (crns cws0)\<lparr>crnAt := (crnAt (crns cws0))
                 (1 := (crnAt (crns cws0) 1)\<lparr>committed := Some 1\<rparr>,
                  2 := (crnAt (crns cws0) 2)\<lparr>committed := Some 1\<rparr>)\<rparr>\<rparr>
    in readyPath (readyAt cws) (readyHead cws) [1, 2]
       \<and> readyHead cws < readyFresh cws \<and> 1 < readyFresh cws \<and> 2 < readyFresh cws
       \<and> map (\<lambda>b. re_clientReqNo (readyAt cws b)) [1, 2] = [1, 2]
       \<and> collected (crns cws) 1 1 \<and> collected (crns cws) 1 2
       \<and> (\<exists>cws'. gcReadyList cws 1 (readyHead cws) = Some cws'
             \<and> readyHead cws' = 0
             \<and> readyPath (readyAt cws') (readyHead cws') [3]
             \<and> re_clientReqNo (readyAt cws' 3) = 2)))"
proof -
  let ?hc = "windowOf (crns (initialClientWindows 0)) 7 0 2 \<lparr>Nodes = [0, 1, 2, 3]\<rparr>"
  let ?cws0 = "pushReady (pushReady
                 (insert_window ((initialClientWindows 0)\<lparr>crns := fst ?hc\<rparr>) 7 (snd ?hc)) 1) 2"
  let ?cws = "?cws0\<lparr>crns := (crns ?cws0)\<lparr>crnAt := (crnAt (crns ?cws0))
                 (1 := (crnAt (crns ?cws0) 1)\<lparr>committed := Some 1\<rparr>,
                  2 := (crnAt (crns ?cws0) 2)\<lparr>committed := Some 1\<rparr>)\<rparr>\<rparr>"
  have p: "readyPath (readyAt ?cws) (readyHead ?cws) [1, 2]"
    by (simp add: pushReady_def insert_window_def initialClientWindows_def)
  have b: "\<forall>b \<in> set (readyHead ?cws # [1, 2]). b < readyFresh ?cws"
    by (simp add: pushReady_def insert_window_def initialClientWindows_def)
  from gcReadyList_keeps_tail [OF p b, of 1]
  show ?thesis
    unfolding Let_def
    by (simp add: newClientWindow_windowOf pushReady_def insert_window_def
          initialClientWindows_def collected_def gcReadyList.simps)
qed

text \<open>
  Claim C5 as stated fails. The window holds the request numbers 0 to 2; request 0 has
  been released to the ready list, which is the anchor followed by that one entry, and
  it is then committed at sequence number 1. \<open>garbageCollect(1)\<close> slides the window to low
  watermark 1, and the ready list still holds the entry, now collected at 1: an entry
  without a successor is never removed ("do not garbage collect the tail of the log").
\<close>

theorem cws_garbageCollect_tail_counterexample:
  "(case newClientWindow (crns (initialClientWindows 0)) 7 0 2 \<lparr>Nodes = [0, 1, 2, 3]\<rparr> of
      None \<Rightarrow> False
    | Some (h, cw) \<Rightarrow>
   (case replayBatch
         (insert_window
            ((initialClientWindows 0)
               \<lparr>crns := h,
                cws_networkConfig := Some \<lparr>Nodes = [0, 1, 2, 3]\<rparr>,
                msgBuffers := [0 \<mapsto> [], 1 \<mapsto> [], 2 \<mapsto> [], 3 \<mapsto> []]\<rparr>)
            7 cw)
         [ForwardRequest (Request 7 0 ''abc'') ''H''] of
      Inl p \<Rightarrow> False
    | Inr cws0 \<Rightarrow>
   (case advanceReady cws0 7 of
      None \<Rightarrow> False
    | Some (Inl p) \<Rightarrow> False
    | Some (Inr cws1) \<Rightarrow>
   (case cws_garbageCollect
           (cws1\<lparr>crns := (crns cws1)\<lparr>crnAt := (crnAt (crns cws1))
               (1 := (crnAt (crns cws1) 1)\<lparr>committed := Some 1\<rparr>)\<rparr>\<rparr>) 1 of
      None \<Rightarrow> False
    | Some (Inl p) \<Rightarrow> False
    | Some (Inr cws2) \<Rightarrow>
        readyPath (readyAt cws1) (readyHead cws1) [1]
        \<and> reqNo (crnAt (crns cws1) (re_clientReqNo (readyAt cws1 1))) = 0
        \<and> readyPath (readyAt cws2) (readyHead cws2) [1]
        \<and> collected (crns cws2) 1 (re_clientReqNo (readyAt cws2 1))
        \<and> map_option lowWatermark (windows cws2 7) = Some 1))))"
  by (simp add: initialClientWindows_def newClientWindow_windowOf windowOf_def
      pushBackReqNo_def insert_window_def cw_allocate_def Let_def someCorrectQuorum_def
      intersectionQuorum_def faults_def advanceReady_def advanceReadyFrom.simps pushReady_def upt_rec
      cws_garbageCollect_def cw_garbageCollect_def gcFront.simps gcReadyList.simps
      drainBuffer.simps collected_def wrap64_def)

subsection \<open>Replies to fetch requests\<close>

text \<open>
  Claim C10. Let \<open>reqNoMap\<close> hold the request number whenever the client has a window and
  the number is within its watermarks (claim C9 gives this for every window that is
  \<open>windowOK\<close>). When the client has a window, the request number is within its
  watermarks, the digest is recorded for it and the data of that digest is known,
  \<open>replyFetchRequest\<close> returns exactly one send, of a \<open>ForwardRequest\<close> with that data and
  digest, to the source alone, and no hash request; otherwise it returns empty \<open>Actions\<close>.
\<close>

theorem replyFetchRequest_result:
  assumes "\<And>cw. windows cws cid = Some cw \<Longrightarrow> inWatermarks cw rn \<Longrightarrow> reqNoMap cw rn \<noteq> None"
  shows "(\<forall>cw a cr rd.
            windows cws cid = Some cw \<and> inWatermarks cw rn \<and> reqNoMap cw rn = Some a
            \<and> digests (crnAt (crns cws) a) d = Some cr \<and> data cr = Some rd
            \<longrightarrow> replyFetchRequest cws source cid rn d
                  = Inr \<lparr>act_Send = [\<lparr>Targets = [source],
                                       send_Msg = Msg_ForwardRequest (ForwardRequest rd d)\<rparr>],
                         act_Hash = []\<rparr>)
         \<and> ((\<nexists>cw a cr rd.
               windows cws cid = Some cw \<and> inWatermarks cw rn \<and> reqNoMap cw rn = Some a
               \<and> digests (crnAt (crns cws) a) d = Some cr \<and> data cr = Some rd)
            \<longrightarrow> replyFetchRequest cws source cid rn d = Inr emptyActions)"
proof (intro conjI allI impI)
  fix cw a cr rd
  assume "windows cws cid = Some cw \<and> inWatermarks cw rn \<and> reqNoMap cw rn = Some a
            \<and> digests (crnAt (crns cws) a) d = Some cr \<and> data cr = Some rd"
  then show "replyFetchRequest cws source cid rn d
                  = Inr \<lparr>act_Send = [\<lparr>Targets = [source],
                                       send_Msg = Msg_ForwardRequest (ForwardRequest rd d)\<rparr>],
                         act_Hash = []\<rparr>"
    by (simp add: replyFetchRequest_def request_def inWatermarks_def send_def emptyActions_def)
next
  assume n: "\<nexists>cw a cr rd.
               windows cws cid = Some cw \<and> inWatermarks cw rn \<and> reqNoMap cw rn = Some a
               \<and> digests (crnAt (crns cws) a) d = Some cr \<and> data cr = Some rd"
  show "replyFetchRequest cws source cid rn d = Inr emptyActions"
  proof (cases "windows cws cid")
    case None
    then show ?thesis by (simp add: replyFetchRequest_def)
  next
    case (Some cw)
    show ?thesis
    proof (cases "inWatermarks cw rn")
      case False
      then show ?thesis using Some by (simp add: replyFetchRequest_def)
    next
      case True
      with assms Some obtain a where a: "reqNoMap cw rn = Some a" by blast
      have "\<And>cr rd. digests (crnAt (crns cws) a) d = Some cr \<Longrightarrow> data cr \<noteq> Some rd"
        using n Some True a by blast
      then show ?thesis
        using Some True a
        by (auto simp: replyFetchRequest_def request_def inWatermarks_def split: option.splits)
    qed
  qed
qed

theorem replyFetchRequest_result_witness:
  "(case newClientWindow (crns (initialClientWindows 0)) 7 0 2 \<lparr>Nodes = [0, 1, 2, 3]\<rparr> of
      None \<Rightarrow> False
    | Some (h, cw) \<Rightarrow>
   (case cws_allocate (insert_window ((initialClientWindows 0)\<lparr>crns := h\<rparr>) 7 cw)
           (Request 7 0 ''abc'') ''H'' of
      None \<Rightarrow> False
    | Some (Inl p) \<Rightarrow> False
    | Some (Inr cws) \<Rightarrow>
        windows cws 7 = Some cw \<and> inWatermarks cw 0 \<and> reqNoMap cw 0 = Some 1 \<and> reqNoMap cw 1 = Some 2
        \<and> replyFetchRequest cws 3 7 0 ''H''
            = Inr \<lparr>act_Send = [\<lparr>Targets = [3],
                      send_Msg = Msg_ForwardRequest (ForwardRequest (Request 7 0 ''abc'') ''H'')\<rparr>],
                   act_Hash = []\<rparr>
        \<and> replyFetchRequest cws 3 7 1 ''H'' = Inr emptyActions
        \<and> replyFetchRequest cws 3 8 0 ''H'' = Inr emptyActions
        \<and> replyFetchRequest cws 3 7 5 ''H'' = Inr emptyActions))"
proof -
  let ?hc = "windowOf (crns (initialClientWindows 0)) 7 0 2 \<lparr>Nodes = [0, 1, 2, 3]\<rparr>"
  let ?cws = "projr (the (cws_allocate
           (insert_window ((initialClientWindows 0)\<lparr>crns := fst ?hc\<rparr>) 7 (snd ?hc))
           (Request 7 0 ''abc'') ''H''))"
  from replyFetchRequest_result [where cws = ?cws and cid = 7 and rn = 0 and source = 3 and d = "''H''"]
  show ?thesis
    by (simp add: initialClientWindows_def newClientWindow_windowOf windowOf_def pushBackReqNo_def
          insert_window_def
          cws_allocate_def cw_allocate_def Let_def someCorrectQuorum_def intersectionQuorum_def
          faults_def checkReady_def replyFetchRequest_def request_def inWatermarks_def
          send_def emptyActions_def upt_rec)
qed

subsection \<open>Construction from the persisted log\<close>

lemma replayLog_Cons:
  assumes "replayLog cws b (e # es) = Some (Inr res)"
  shows "\<exists>cws1. replayLog cws1 (case e of Persistent_QEntry d reqs \<Rightarrow> b(d \<mapsto> reqs) | _ \<Rightarrow> b) es
                  = Some (Inr res)
           \<and> replayLog cws b [e]
                  = Some (Inr (cws1, case e of Persistent_QEntry d reqs \<Rightarrow> b(d \<mapsto> reqs) | _ \<Rightarrow> b))"
proof (cases e)
  case (Persistent_CEntry ns)
  then show ?thesis using assms by (auto split: if_splits sum.splits option.splits)
next
  case (Persistent_QEntry d reqs)
  then show ?thesis using assms by simp
next
  case (Persistent_PEntry d)
  then show ?thesis using assms by (auto split: option.splits sum.splits)
qed




lemma replayBatch_Cons:
  assumes "replayBatch cws (r # rs) = Inr res"
  shows "\<exists>cws1. replayBatch cws [r] = Inr cws1 \<and> replayBatch cws1 rs = Inr res"
  using assms by (auto split: option.splits sum.splits)



lemma replayBatch_single:
  assumes "replayBatch cws [r] = Inr cwsB"
  shows "\<exists>cw a. windows cws (req_ClientId (fwd_Request r)) = Some cw
           \<and> inWatermarks cw (req_ReqNo (fwd_Request r))
           \<and> reqNoMap cw (req_ReqNo (fwd_Request r)) = Some a
           \<and> ackData (crns cwsB) a (fwd_Digest r) = Some (fwd_Request r)
           \<and> strongRequest (crnAt (crns cwsB) a) = Some (fwd_Digest r)
           \<and> windows cwsB = windows cws"
  using assms
  by (auto simp: cw_allocate_def Let_def inWatermarks_def ackData_def
        split: option.splits sum.splits if_splits)

text \<open>
  A window on which the loop of \<open>advanceReady\<close> does not wrap around: its high watermark is
  below \<open>2^64 - 1\<close>, or the loop does not run at all.
\<close>

lemma advanceReadyFrom_windows:
  assumes "advanceReadyFrom cws cid i = Some (Inr cws')" and "windows cws cid = Some cw"
    and "highWatermark cw < 2 ^ 64 - 1 \<or> highWatermark cw < i"
  shows "crns cws' = crns cws \<and> clients cws' = clients cws
     \<and> cws_networkConfig cws' = cws_networkConfig cws \<and> msgBuffers cws' = msgBuffers cws
     \<and> windows cws' = (if readyRun (crns cws) cw i = [] then windows cws
                       else (windows cws)(cid \<mapsto>
                              cw\<lparr>nextReadyMark := i + length (readyRun (crns cws) cw i)\<rparr>))"
  using assms
proof (induction "Suc (highWatermark cw) - i" arbitrary: cws cw i)
  case 0
  then have hi: "highWatermark cw < i" by simp
  have "advanceReadyFrom cws cid i = Some (Inr cws)"
    using "0.prems"(2) hi by (simp add: advanceReadyFrom.simps [of cws cid i])
  then show ?case
    using "0.prems"(1) by (simp add: readyRun_above [OF hi])
next
  case (Suc n)
  then have le: "i \<le> highWatermark cw" by simp
  with Suc.prems(3) have hb: "highWatermark cw < 2 ^ 64 - 1" by simp
  show ?case
  proof (cases "releasable (crns cws) cw i")
    case False
    have "advanceReadyFrom cws cid i = Some (Inr cws)"
      using Suc.prems(1,2) le False
      by (auto simp: advanceReadyFrom.simps [of cws cid i] releasable_def
            split: option.splits)
    then show ?thesis
      using Suc.prems(1) by (simp add: readyRun_stop [OF False])
  next
    case True
    then obtain a d cr rd where s: "reqNoMap cw i = Some a"
      "strongRequest (crnAt (crns cws) a) = Some d"
      "digests (crnAt (crns cws) a) d = Some cr" "data cr = Some rd"
      by (auto simp: releasable_def split: option.splits)
    let ?cw1 = "cw\<lparr>nextReadyMark := i + 1\<rparr>"
    let ?cws1 = "(pushReady cws a)\<lparr>windows := (windows cws)(cid \<mapsto> ?cw1)\<rparr>"
    have w64: "wrap64 (Suc i) = Suc i"
      using le hb by (simp add: wrap64_id)
    have step: "advanceReadyFrom cws cid i = advanceReadyFrom ?cws1 cid (i + 1)"
      using Suc.prems(2) le s w64 by (simp add: advanceReadyFrom.simps [of cws cid i])
    have run: "readyRun (crns cws) cw i = i # readyRun (crns cws) cw (Suc i)"
      using le True by (rule readyRun_step)
    have "crns cws' = crns ?cws1 \<and> clients cws' = clients ?cws1
     \<and> cws_networkConfig cws' = cws_networkConfig ?cws1 \<and> msgBuffers cws' = msgBuffers ?cws1
     \<and> windows cws' = (if readyRun (crns ?cws1) ?cw1 (i + 1) = [] then windows ?cws1
                       else (windows ?cws1)(cid \<mapsto>
                              ?cw1\<lparr>nextReadyMark := (i + 1) + length (readyRun (crns ?cws1) ?cw1 (i + 1))\<rparr>))"
    proof (rule Suc.hyps(1))
      show "n = Suc (highWatermark ?cw1) - (i + 1)" using Suc.hyps(2) by simp
      show "advanceReadyFrom ?cws1 cid (i + 1) = Some (Inr cws')" using Suc.prems(1) step by simp
      show "windows ?cws1 cid = Some ?cw1" by simp
      show "highWatermark ?cw1 < 2 ^ 64 - 1 \<or> highWatermark ?cw1 < i + 1" using hb by simp
    qed
    then show ?thesis
      unfolding run by simp
  qed
qed



lemma advancedMark_fields:
  "highWatermark (advancedMark h cw) = highWatermark cw"
  "nextReadyMark cw \<le> nextReadyMark (advancedMark h cw)"
  by (simp_all add: advancedMark_def)

lemma advanceReady_windows:
  assumes "advanceReady cws cid = Some (Inr cws')"
    and "\<forall>c cw. windows cws c = Some cw \<longrightarrow>
           highWatermark cw < 2 ^ 64 - 1 \<or> highWatermark cw < nextReadyMark cw"
  shows "\<exists>cw. windows cws cid = Some cw
     \<and> windows cws' = (windows cws)(cid \<mapsto> advancedMark (crns cws) cw)
     \<and> crns cws' = crns cws \<and> clients cws' = clients cws
     \<and> cws_networkConfig cws' = cws_networkConfig cws \<and> msgBuffers cws' = msgBuffers cws"
proof -
  from assms(1) obtain cw where w: "windows cws cid = Some cw"
    and r: "advanceReadyFrom cws cid (nextReadyMark cw) = Some (Inr cws')"
    by (auto simp: advanceReady_def split: option.splits)
  from assms(2) w have "highWatermark cw < 2 ^ 64 - 1 \<or> highWatermark cw < nextReadyMark cw"
    by blast
  note f = advanceReadyFrom_windows [OF r w this]
  have "windows cws' = (windows cws)(cid \<mapsto> advancedMark (crns cws) cw)"
  proof (cases "readyRun (crns cws) cw (nextReadyMark cw) = []")
    case True
    then have "advancedMark (crns cws) cw = cw" by (simp add: advancedMark_def)
    moreover have "(windows cws)(cid \<mapsto> cw) = windows cws" using w by (rule map_upd_triv)
    ultimately show ?thesis using f True by simp
  next
    case False
    then show ?thesis using f by (simp add: advancedMark_def)
  qed
  with w f show ?thesis by blast
qed

lemma advanceReady_marks:
  assumes "advanceReady cws cid = Some (Inr cws')"
    and "\<forall>c cw. windows cws c = Some cw \<longrightarrow>
           highWatermark cw < 2 ^ 64 - 1 \<or> highWatermark cw < nextReadyMark cw"
  shows "\<forall>c cw. windows cws' c = Some cw \<longrightarrow>
           highWatermark cw < 2 ^ 64 - 1 \<or> highWatermark cw < nextReadyMark cw"
proof (intro allI impI)
  from advanceReady_windows [OF assms] obtain cw0 where w: "windows cws cid = Some cw0"
    and w1: "windows cws' = (windows cws)(cid \<mapsto> advancedMark (crns cws) cw0)"
    by blast
  fix c' cw' assume g: "windows cws' c' = Some cw'"
  show "highWatermark cw' < 2 ^ 64 - 1 \<or> highWatermark cw' < nextReadyMark cw'"
  proof (cases "c' = cid")
    case True
    then have e: "cw' = advancedMark (crns cws) cw0" using g w1 by simp
    from assms(2) w
    have "highWatermark cw0 < 2 ^ 64 - 1 \<or> highWatermark cw0 < nextReadyMark cw0" by blast
    then show ?thesis
      unfolding e using advancedMark_fields [where h = "crns cws" and cw = cw0] by auto
  next
    case False
    then have "windows cws c' = Some cw'" using g w1 by simp
    with assms(2) show ?thesis by blast
  qed
qed



lemma newClientWindow_Some:
  assumes "newClientWindow h cid low high cfg = Some (h1, cw1)" and "high < 2 ^ 64"
  shows "(h1, cw1) = windowOf h cid low high cfg"
    and "high < 2 ^ 64 - 1 \<or> high < low"
proof -
  show b: "high < 2 ^ 64 - 1 \<or> high < low"
  proof (rule ccontr)
    assume "\<not> (high < 2 ^ 64 - 1 \<or> high < low)"
    with assms(2) have "high = 2 ^ 64 - 1" and "low < 2 ^ 64" by simp_all
    then have "newClientWindow h cid low high cfg = None"
      using newClientWindow_top [of low h cid cfg] by simp
    with assms(1) show False by simp
  qed
  show "(h1, cw1) = windowOf h cid low high cfg"
  proof (cases "high < 2 ^ 64 - 1")
    case True
    then show ?thesis using assms(1) by (simp add: newClientWindow_windowOf)
  next
    case False
    with b have "\<not> low \<le> high" by simp
    then show ?thesis
      using assms(1)
      by (simp add: newClientWindow_def windowOf_def newClientWindow_loop.simps [of low high])
  qed
qed

lemma addClients_marks:
  "addClients cws cfg cs = Some (Inr cws') \<Longrightarrow>
   (\<forall>c cw. windows cws c = Some cw \<longrightarrow>
           highWatermark cw < 2 ^ 64 - 1 \<or> highWatermark cw < nextReadyMark cw) \<Longrightarrow>
   (\<forall>c cw. windows cws' c = Some cw \<longrightarrow>
           highWatermark cw < 2 ^ 64 - 1 \<or> highWatermark cw < nextReadyMark cw)"
proof (induction cs arbitrary: cws)
  case Nil
  then show ?case by simp
next
  case (Cons client cs)
  from Cons.prems(1) obtain b bs where bl: "BucketLowWatermarks client = b # bs"
    by (cases "BucketLowWatermarks client") simp_all
  let ?low = "fold (\<lambda>blw lw. if blw < lw then blw else lw) (b # bs) b"
  from Cons.prems(1) bl obtain h1 cw1 where
    n: "newClientWindow (crns cws) (Id client) ?low (wrap64 (?low + 100)) cfg = Some (h1, cw1)"
    and r: "addClients (insert_window (cws\<lparr>crns := h1\<rparr>) (Id client) cw1) cfg cs = Some (Inr cws')"
    by (auto split: option.splits)
  from newClientWindow_Some [OF n wrap64_less]
  have e: "(h1, cw1) = windowOf (crns cws) (Id client) ?low (wrap64 (?low + 100)) cfg"
    and q: "wrap64 (?low + 100) < 2 ^ 64 - 1 \<or> wrap64 (?low + 100) < ?low"
    by simp_all
  have f: "highWatermark cw1 = wrap64 (?low + 100)" "nextReadyMark cw1 = ?low"
    using arg_cong [OF e, of snd] by (simp_all add: windowOf_fields)
  show ?case
  proof (rule Cons.IH [OF r], intro allI impI)
    fix c cw
    assume "windows (insert_window (cws\<lparr>crns := h1\<rparr>) (Id client) cw1) c = Some cw"
    then have "cw = cw1 \<or> windows cws c = Some cw"
      by (auto simp: insert_window_def split: if_splits)
    then show "highWatermark cw < 2 ^ 64 - 1 \<or> highWatermark cw < nextReadyMark cw"
      using q f Cons.prems(2) by auto
  qed
qed

lemma replayBatch_windows:
  "replayBatch cws rs = Inr cws' \<Longrightarrow> windows cws' = windows cws"
proof (induction rs arbitrary: cws)
  case Nil
  then show ?case by simp
next
  case (Cons r rs)
  from replayBatch_Cons [OF Cons.prems] obtain cws1 where
    a: "replayBatch cws [r] = Inr cws1" and b: "replayBatch cws1 rs = Inr cws'"
    by blast
  from replayBatch_single [OF a] have "windows cws1 = windows cws" by blast
  with Cons.IH [OF b] show ?case by simp
qed

lemma replayLog_marks:
  "replayLog cws b es = Some (Inr (cws', b')) \<Longrightarrow>
   (\<forall>c cw. windows cws c = Some cw \<longrightarrow>
           highWatermark cw < 2 ^ 64 - 1 \<or> highWatermark cw < nextReadyMark cw) \<Longrightarrow>
   (\<forall>c cw. windows cws' c = Some cw \<longrightarrow>
           highWatermark cw < 2 ^ 64 - 1 \<or> highWatermark cw < nextReadyMark cw)"
proof (induction es arbitrary: cws b)
  case Nil
  then show ?case by simp
next
  case (Cons e es)
  let ?b1 = "case e of Persistent_QEntry d reqs \<Rightarrow> b(d \<mapsto> reqs) | _ \<Rightarrow> b"
  from replayLog_Cons [OF Cons.prems(1)] obtain cws1 where
    r: "replayLog cws1 ?b1 es = Some (Inr (cws', b'))"
    and s: "replayLog cws b [e] = Some (Inr (cws1, ?b1))"
    by blast
  have "\<forall>c cw. windows cws1 c = Some cw \<longrightarrow>
           highWatermark cw < 2 ^ 64 - 1 \<or> highWatermark cw < nextReadyMark cw"
  proof (cases e)
    case (Persistent_CEntry ns)
    show ?thesis
    proof (cases "cws_networkConfig cws = None")
      case True
      with s Persistent_CEntry
      have "addClients (cws\<lparr>cws_networkConfig := Some (Config ns)\<rparr>) (Config ns) (Clients ns)
              = Some (Inr cws1)"
        by (auto split: option.splits sum.splits)
      from addClients_marks [OF this] Cons.prems(2) show ?thesis by simp
    next
      case False
      with s Persistent_CEntry have "cws1 = cws" by simp
      with Cons.prems(2) show ?thesis by simp
    qed
  next
    case (Persistent_QEntry d reqs)
    with s have "cws1 = cws" by simp
    with Cons.prems(2) show ?thesis by simp
  next
    case (Persistent_PEntry d)
    with s obtain batch where "replayBatch cws batch = Inr cws1"
      by (auto split: option.splits sum.splits)
    from replayBatch_windows [OF this] Cons.prems(2) show ?thesis by simp
  qed
  from Cons.IH [OF r this] show ?case .
qed





text \<open>
  \<open>newClientWindows\<close> returns, normally or with a panic, whenever every bucket low
  watermark of the log is below \<open>2^64 - 101\<close>: then no window reaches the top of the
  \<open>uint64\<close> range, and every loop that steps a request number ends.
\<close>

lemma lowest_in_set:
  "fold (\<lambda>blw lw. if blw < lw then blw else lw) xs (b::nat) \<in> set (b # xs)"
proof (induction xs arbitrary: b)
  case Nil
  then show ?case by simp
next
  case (Cons x xs)
  from Cons.IH [of "if x < b then x else b"] show ?case by (auto split: if_splits)
qed

lemma addClients_returns:
  assumes "\<forall>client \<in> set cs. \<forall>b \<in> set (BucketLowWatermarks client). b + 100 < 2 ^ 64 - 1"
  shows "\<exists>r. addClients cws cfg cs = Some r"
  using assms
proof (induction cs arbitrary: cws)
  case Nil
  then show ?case by simp
next
  case (Cons client cs)
  show ?case
  proof (cases "BucketLowWatermarks client")
    case Nil
    then show ?thesis by simp
  next
    case (Cons b bs)
    let ?low = "fold (\<lambda>blw lw. if blw < lw then blw else lw) (b # bs) b"
    have "?low \<in> set (b # b # bs)" by (rule lowest_in_set)
    then have "?low \<in> set (BucketLowWatermarks client)" using Cons by auto
    with Cons.prems have lo: "?low + 100 < 2 ^ 64 - 1" by simp
    then have w: "wrap64 (?low + 100) = ?low + 100" by (simp add: wrap64_id)
    have n: "newClientWindow (crns cws) (Id client) ?low (wrap64 (?low + 100)) cfg
               = Some (windowOf (crns cws) (Id client) ?low (?low + 100) cfg)"
      unfolding w using lo by (rule newClientWindow_windowOf)
    from Cons.prems have "\<forall>client \<in> set cs. \<forall>b \<in> set (BucketLowWatermarks client). b + 100 < 2 ^ 64 - 1"
      by simp
    from Cons.IH [OF this] show ?thesis
      using Cons n by (simp add: case_prod_beta)
  qed
qed

lemma replayLog_returns:
  assumes "\<forall>ns client b. Persistent_CEntry ns \<in> set es \<and> client \<in> set (Clients ns)
              \<and> b \<in> set (BucketLowWatermarks client) \<longrightarrow> b + 100 < 2 ^ 64 - 1"
  shows "\<exists>r. replayLog cws bt es = Some r"
  using assms
proof (induction es arbitrary: cws bt)
  case Nil
  then show ?case by simp
next
  case (Cons e es)
  from Cons.prems have rest:
    "\<forall>ns client b. Persistent_CEntry ns \<in> set es \<and> client \<in> set (Clients ns)
              \<and> b \<in> set (BucketLowWatermarks client) \<longrightarrow> b + 100 < 2 ^ 64 - 1"
    by (metis list.set_intros(2))
  note IH = Cons.IH [OF rest]
  show ?case
  proof (cases e)
    case (Persistent_CEntry ns)
    from Cons.prems Persistent_CEntry
    have "\<forall>client \<in> set (Clients ns). \<forall>b \<in> set (BucketLowWatermarks client). b + 100 < 2 ^ 64 - 1"
      by (metis list.set_intros(1))
    from addClients_returns [OF this]
    obtain r where "addClients (cws\<lparr>cws_networkConfig := Some (Config ns)\<rparr>) (Config ns) (Clients ns)
                      = Some r"
      by blast
    then show ?thesis
      using Persistent_CEntry IH by (cases r) simp_all
  next
    case (Persistent_QEntry d reqs)
    then show ?thesis using IH by simp
  next
    case (Persistent_PEntry d)
    then show ?thesis using IH by (simp split: option.splits sum.splits)
  qed
qed

lemma advanceReadyFrom_returns:
  assumes "windows cws cid = Some cw"
    and "highWatermark cw < 2 ^ 64 - 1 \<or> highWatermark cw < i"
  shows "\<exists>r. advanceReadyFrom cws cid i = Some r"
  using assms
proof (induction "Suc (highWatermark cw) - i" arbitrary: cws cw i)
  case 0
  then have "highWatermark cw < i" by simp
  then show ?case
    using "0.prems"(1) by (simp add: advanceReadyFrom.simps [of cws cid i])
next
  case (Suc n)
  then have le: "i \<le> highWatermark cw" by simp
  with Suc.prems(2) have hb: "highWatermark cw < 2 ^ 64 - 1" by simp
  have w64: "wrap64 (Suc i) = Suc i"
    using le hb by (simp add: wrap64_id)
  have rec: "\<exists>r. advanceReadyFrom
                  ((pushReady cws a)\<lparr>windows := (windows cws)(cid \<mapsto> cw\<lparr>nextReadyMark := Suc i\<rparr>)\<rparr>)
                  cid (Suc i) = Some r" for a
  proof (rule Suc.hyps(1))
    show "n = Suc (highWatermark (cw\<lparr>nextReadyMark := Suc i\<rparr>)) - Suc i"
      using Suc.hyps(2) by simp
    show "windows ((pushReady cws a)\<lparr>windows := (windows cws)(cid \<mapsto> cw\<lparr>nextReadyMark := Suc i\<rparr>)\<rparr>) cid
            = Some (cw\<lparr>nextReadyMark := Suc i\<rparr>)"
      by simp
    show "highWatermark (cw\<lparr>nextReadyMark := Suc i\<rparr>) < 2 ^ 64 - 1
            \<or> highWatermark (cw\<lparr>nextReadyMark := Suc i\<rparr>) < Suc i"
      using hb by simp
  qed
  show ?case
    using Suc.prems(1) le w64 rec
    by (simp add: advanceReadyFrom.simps [of cws cid i] split: option.splits)
qed

lemma advanceReadyAll_returns:
  assumes "\<forall>c cw. windows cws c = Some cw \<longrightarrow>
           highWatermark cw < 2 ^ 64 - 1 \<or> highWatermark cw < nextReadyMark cw"
  shows "\<exists>r. advanceReadyAll cws ids = Some r"
  using assms
proof (induction ids arbitrary: cws)
  case Nil
  then show ?case by simp
next
  case (Cons c ids)
  have "\<exists>r. advanceReady cws c = Some r"
  proof (cases "windows cws c")
    case None
    then show ?thesis by (simp add: advanceReady_def)
  next
    case (Some cw)
    with Cons.prems have "highWatermark cw < 2 ^ 64 - 1 \<or> highWatermark cw < nextReadyMark cw"
      by blast
    from advanceReadyFrom_returns [OF Some this] show ?thesis
      using Some by (simp add: advanceReady_def)
  qed
  then obtain r where r: "advanceReady cws c = Some r" by blast
  show ?case
  proof (cases r)
    case (Inl p)
    with r show ?thesis by simp
  next
    case (Inr cws1)
    with r have a: "advanceReady cws c = Some (Inr cws1)" by simp
    from advanceReady_windows [OF a Cons.prems] obtain cw where w: "windows cws c = Some cw"
      and w1: "windows cws1 = (windows cws)(c \<mapsto> advancedMark (crns cws) cw)"
      by blast
    have "\<forall>c cw. windows cws1 c = Some cw \<longrightarrow>
           highWatermark cw < 2 ^ 64 - 1 \<or> highWatermark cw < nextReadyMark cw"
      using advanceReady_marks [OF a Cons.prems] .
    from Cons.IH [OF this] show ?thesis using a by simp
  qed
qed

lemma newClientWindows_returns:
  assumes "\<forall>ns client b. Persistent_CEntry ns \<in> set persisted \<and> client \<in> set (Clients ns)
              \<and> b \<in> set (BucketLowWatermarks client) \<longrightarrow> b + 100 < 2 ^ 64 - 1"
  shows "\<exists>r. newClientWindows persisted myId = Some r"
proof -
  from replayLog_returns [OF assms]
  obtain r where rl: "replayLog (initialClientWindows myId) Map.empty persisted = Some r"
    by blast
  show ?thesis
  proof (cases r)
    case (Inl p)
    with rl show ?thesis by (simp add: newClientWindows_def)
  next
    case (Inr res)
    obtain cws1 bt where res: "res = (cws1, bt)" by (cases res)
    have rl': "replayLog (initialClientWindows myId) Map.empty persisted = Some (Inr (cws1, bt))"
      using rl Inr res by simp
    have q1: "\<forall>c cw. windows cws1 c = Some cw \<longrightarrow>
           highWatermark cw < 2 ^ 64 - 1 \<or> highWatermark cw < nextReadyMark cw"
      by (rule replayLog_marks [OF rl']) (simp add: initialClientWindows_def)
    from advanceReadyAll_returns [OF q1]
    obtain r2 where ar: "advanceReadyAll cws1 (clients cws1) = Some r2" by blast
    show ?thesis
      using rl' ar by (simp add: newClientWindows_def split: sum.splits option.splits)
  qed
qed



end
